theory Spec2Isabelle
  imports Main "HOL-Library.Sublist"
begin

section \<open>Library functions the page code calls\<close>

text \<open>
  Go strings are byte sequences; they are modelled as \<open>string\<close> (a list of 8-bit
  characters).  All the literals and character classes the program uses are ASCII, so
  matching by byte and matching by UTF-8 sequence agree.
\<close>

subsection \<open>Package strings\<close>

definition HasPrefix :: "string \<Rightarrow> string \<Rightarrow> bool" where
  "HasPrefix s pre = prefix pre s"

text \<open>\<open>strings.Index\<close>: the position of the first instance of \<open>sub\<close>, \<open>None\<close> for Go's -1.\<close>

fun Index :: "string \<Rightarrow> string \<Rightarrow> nat option" where
  "Index [] sub = (if sub = [] then Some 0 else None)"
| "Index (c # cs) sub =
     (if prefix sub (c # cs) then Some 0 else map_option Suc (Index cs sub))"

definition Contains :: "string \<Rightarrow> string \<Rightarrow> bool" where
  "Contains s sub = (Index s sub \<noteq> None)"

text \<open>
  \<open>strings.Replace s old new n\<close> replaces the first \<open>n\<close> non-overlapping instances of
  \<open>old\<close>, scanning from the left; a negative \<open>n\<close> means no limit.  \<open>replaceN\<close> is the
  replacement loop for a non-empty \<open>old\<close>; it stops by itself when no instance is left,
  so for a negative \<open>n\<close> the bound \<open>length s + 1\<close> stands for the count of instances.
  For an empty \<open>old\<close> Go inserts \<open>new\<close> before every character and at the end
  (\<open>replaceEmpty\<close>); no call of the program passes an empty \<open>old\<close>.
\<close>

fun replaceN :: "nat \<Rightarrow> string \<Rightarrow> string \<Rightarrow> string \<Rightarrow> string" where
  "replaceN 0 s old new = s"
| "replaceN (Suc k) s old new =
     (case Index s old of
        None \<Rightarrow> s
      | Some j \<Rightarrow> take j s @ new @ replaceN k (drop (j + length old) s) old new)"

fun replaceEmpty :: "nat \<Rightarrow> string \<Rightarrow> string \<Rightarrow> string" where
  "replaceEmpty 0 s new = s"
| "replaceEmpty (Suc k) [] new = new"
| "replaceEmpty (Suc k) (c # cs) new = new @ c # replaceEmpty k cs new"

definition Replace :: "string \<Rightarrow> string \<Rightarrow> string \<Rightarrow> int \<Rightarrow> string" where
  "Replace s old new n =
     (if old = new \<or> n = 0 then s
      else let k = (if n < 0 then Suc (length s) else nat n)
           in if old = [] then replaceEmpty k s new else replaceN k s old new)"

subsection \<open>Package path/filepath (Unix)\<close>

text \<open>
  \<open>filepath.Clean\<close> reads the path left to right and writes into a buffer \<open>out\<close>;
  \<open>dotdot\<close> is the length of the buffer prefix that a \<open>..\<close> element may not remove.
  \<open>backtrack_to w\<close> is the inner loop that steps the write index back to the previous
  separator.
\<close>

fun backtrack_to :: "string \<Rightarrow> nat \<Rightarrow> nat \<Rightarrow> nat" where
  "backtrack_to out dotdot 0 = 0"
| "backtrack_to out dotdot (Suc w) =
     (if dotdot < Suc w \<and> out ! Suc w \<noteq> CHR ''/'' then backtrack_to out dotdot w else Suc w)"

function clean_loop :: "bool \<Rightarrow> string \<Rightarrow> string \<Rightarrow> nat \<Rightarrow> string" where
  "clean_loop rooted [] out dotdot = out"
| "clean_loop rooted (c # cs) out dotdot =
     (if c = CHR ''/'' then clean_loop rooted cs out dotdot
      else if c = CHR ''.'' \<and> (cs = [] \<or> hd cs = CHR ''/'') then clean_loop rooted cs out dotdot
      else if c = CHR ''.'' \<and> hd cs = CHR ''.'' \<and> (tl cs = [] \<or> hd (tl cs) = CHR ''/'') then
        (if dotdot < length out then
           clean_loop rooted (tl cs) (take (backtrack_to out dotdot (length out - 1)) out) dotdot
         else if \<not> rooted then
           (let out' = (if 0 < length out then out @ ''/'' else out) @ ''..''
            in clean_loop rooted (tl cs) out' (length out'))
         else clean_loop rooted (tl cs) out dotdot)
      else
        (let out' = (if rooted \<and> length out \<noteq> 1 \<or> \<not> rooted \<and> length out \<noteq> 0
                     then out @ ''/'' else out)
         in clean_loop rooted (dropWhile (\<lambda>x. x \<noteq> CHR ''/'') (c # cs))
              (out' @ takeWhile (\<lambda>x. x \<noteq> CHR ''/'') (c # cs)) dotdot))"
  by pat_completeness auto
termination
  by (relation "measure (\<lambda>(rooted, path, out, dotdot). length path)")
     (auto simp: less_Suc_eq_le length_dropWhile_le)

definition Clean :: "string \<Rightarrow> string" where
  "Clean path =
     (if path = [] then ''.''
      else let rooted = (hd path = CHR ''/'');
               out = (if rooted then clean_loop True (tl path) ''/'' 1
                      else clean_loop False path [] 0)
           in if out = [] then ''.'' else out)"

text \<open>\<open>strings.Join\<close> with the separator \<open>/\<close>.\<close>

fun join_sep :: "string list \<Rightarrow> string" where
  "join_sep [] = []"
| "join_sep [e] = e"
| "join_sep (e # es) = e @ ''/'' @ join_sep es"

text \<open>\<open>filepath.Join\<close>: leading empty elements are dropped, the rest is joined and cleaned.\<close>

fun Join :: "string list \<Rightarrow> string" where
  "Join [] = []"
| "Join (e # es) = (if e \<noteq> [] then Clean (join_sep (e # es)) else Join es)"

subsection \<open>Package regexp\<close>

text \<open>
  A regular expression is modelled by its syntax tree and matched by backtracking in
  priority order, which is the leftmost-first semantics of Go's \<open>regexp\<close>: of the
  matches that start earliest, the one a backtracking search finds first.  Greedy
  operators try the longer alternative first.  The three patterns of the program repeat
  character classes only, so \<open>Star\<close> takes a class; \<open>x+\<close> is \<open>x\<close> followed by \<open>x*\<close>.
\<close>

datatype cls = Ranges "(char \<times> char) list" | NotNewline

fun in_cls :: "cls \<Rightarrow> char \<Rightarrow> bool" where
  "in_cls (Ranges rs) c =
     list_ex (\<lambda>(lo, hi). (of_char lo :: nat) \<le> of_char c \<and> (of_char c :: nat) \<le> of_char hi) rs"
| "in_cls NotNewline c = (c \<noteq> CHR 0x0A)"

datatype re =
    Lit string
  | Cls cls
  | Star cls
  | Seq re re
  | Alt re re
  | Opt re
  | Grp nat re
  | Bol
  | Eol

definition Plus :: "cls \<Rightarrow> re" where
  "Plus k = Seq (Cls k) (Star k)"

type_synonym caps = "nat \<Rightarrow> string option"

text \<open>
  A thread of the search is the position reached, the text still to read and the
  submatches captured so far.  \<open>star_run\<close> lists the ways a greedy \<open>x*\<close> can stop,
  longest first.
\<close>

fun star_run :: "cls \<Rightarrow> nat \<Rightarrow> string \<Rightarrow> (nat \<times> string) list" where
  "star_run k pos [] = [(pos, [])]"
| "star_run k pos (x # xs) =
     (if in_cls k x then star_run k (Suc pos) xs @ [(pos, x # xs)] else [(pos, x # xs)])"

fun backtrack :: "re \<Rightarrow> nat \<Rightarrow> string \<Rightarrow> caps \<Rightarrow> (nat \<times> string \<times> caps) list" where
  "backtrack (Lit l) pos rest c =
     (if prefix l rest then [(pos + length l, drop (length l) rest, c)] else [])"
| "backtrack (Cls k) pos rest c =
     (case rest of [] \<Rightarrow> [] | x # xs \<Rightarrow> if in_cls k x then [(Suc pos, xs, c)] else [])"
| "backtrack (Star k) pos rest c = map (\<lambda>(p, r). (p, r, c)) (star_run k pos rest)"
| "backtrack (Seq a b) pos rest c =
     concat (map (\<lambda>(p, r, c'). backtrack b p r c') (backtrack a pos rest c))"
| "backtrack (Alt a b) pos rest c = backtrack a pos rest c @ backtrack b pos rest c"
| "backtrack (Opt a) pos rest c = backtrack a pos rest c @ [(pos, rest, c)]"
| "backtrack (Grp n a) pos rest c =
     map (\<lambda>(p, r, c'). (p, r, c'(n \<mapsto> take (p - pos) rest))) (backtrack a pos rest c)"
| "backtrack Bol pos rest c = (if pos = 0 then [(pos, rest, c)] else [])"
| "backtrack Eol pos rest c = (if rest = [] then [(pos, rest, c)] else [])"

fun ngroups :: "re \<Rightarrow> nat" where
  "ngroups (Seq a b) = max (ngroups a) (ngroups b)"
| "ngroups (Alt a b) = max (ngroups a) (ngroups b)"
| "ngroups (Opt a) = ngroups a"
| "ngroups (Grp n a) = max n (ngroups a)"
| "ngroups r = 0"

text \<open>
  \<open>doExecute r s pos\<close> is the unanchored search from \<open>pos\<close>: the earliest start that
  has a match, and there the first match in priority order.  It gives the start, the end
  and the captures.
\<close>

definition doExecute :: "re \<Rightarrow> string \<Rightarrow> nat \<Rightarrow> (nat \<times> nat \<times> caps) option" where
  "doExecute r s pos =
     (case List.find (\<lambda>i. backtrack r i (drop i s) Map.empty \<noteq> []) [pos..<Suc (length s)] of
        None \<Rightarrow> None
      | Some i \<Rightarrow>
          (case backtrack r i (drop i s) Map.empty of
             [] \<Rightarrow> None
           | (e, _, c) # _ \<Rightarrow> Some (i, e, c)))"

definition MatchString :: "re \<Rightarrow> string \<Rightarrow> bool" where
  "MatchString r s = (doExecute r s 0 \<noteq> None)"

text \<open>
  One entry of \<open>FindAllStringSubmatch\<close>: the whole match and then one string per
  capture group of the pattern, empty for a group that took no part in the match.
\<close>

definition submatch :: "re \<Rightarrow> string \<Rightarrow> nat \<Rightarrow> nat \<Rightarrow> caps \<Rightarrow> string list" where
  "submatch r s b e c =
     take (e - b) (drop b s)
       # map (\<lambda>g. case c g of None \<Rightarrow> [] | Some t \<Rightarrow> t) [1..<Suc (ngroups r)]"

text \<open>
  \<open>allMatches\<close> is the loop of \<open>FindAllStringSubmatch s (-1)\<close>: successive
  non-overlapping matches.  After an empty match the search moves on by one character,
  and an empty match right after the previous match is not delivered.
\<close>

function allMatches :: "re \<Rightarrow> string \<Rightarrow> nat \<Rightarrow> nat option \<Rightarrow> string list list" where
  "allMatches r s pos prevMatchEnd =
     (if length s < pos then []
      else case doExecute r s pos of
             None \<Rightarrow> []
           | Some (b, e, c) \<Rightarrow>
               if e = pos then
                 (if Some b = prevMatchEnd then [] else [submatch r s b e c])
                   @ allMatches r s (Suc pos) (Some e)
               else submatch r s b e c # allMatches r s e (Some e))"
  by pat_completeness auto
termination
proof (relation "measure (\<lambda>(r, s, pos, prev). Suc (length s) - pos)")
  fix r :: re and s :: string and pos :: nat and x2 :: "nat \<times> nat \<times> caps"
    and b :: nat and y :: "nat \<times> caps" and e :: nat and c :: caps
    and prevMatchEnd :: "nat option"
  assume bound: "\<not> length s < pos" and ex: "doExecute r s pos = Some x2"
    and x2: "(b, y) = x2" and y: "(e, c) = y" and ne: "e \<noteq> pos"
  have star: "(p', r') \<in> set (star_run k p t) \<Longrightarrow> p \<le> p'" for p' r' k p t
  proof (induction t arbitrary: p)
    case Nil
    then show ?case by simp
  next
    case (Cons x xs)
    then show ?case
      by (fastforce split: if_splits)
  qed
  have mono: "(p', r', c') \<in> set (backtrack q p t d) \<Longrightarrow> p \<le> p'" for p' r' c' q p t d
  proof (induction q arbitrary: p t d p' r' c')
    case (Lit l)
    then show ?case by (auto split: if_splits)
  next
    case (Cls k)
    then show ?case by (cases t) (auto split: if_splits)
  next
    case (Star k)
    then show ?case by (auto dest: star)
  next
    case (Seq q1 q2)
    from Seq.prems obtain p1 r1 c1 where
      "(p1, r1, c1) \<in> set (backtrack q1 p t d)" "(p', r', c') \<in> set (backtrack q2 p1 r1 c1)"
      by auto
    then have "p \<le> p1" "p1 \<le> p'"
      using Seq.IH by blast+
    then show ?case by simp
  next
    case (Alt q1 q2)
    then show ?case by auto
  next
    case (Opt q)
    then show ?case by auto
  next
    case (Grp n q)
    then show ?case by auto
  next
    case Bol
    then show ?case by (auto split: if_splits)
  next
    case Eol
    then show ?case by (auto split: if_splits)
  qed
  from ex x2 y obtain r' tl' where
    f: "List.find (\<lambda>i. backtrack r i (drop i s) Map.empty \<noteq> []) [pos..<Suc (length s)] = Some b"
    and h: "backtrack r b (drop b s) Map.empty = (e, r', c) # tl'"
    by (auto simp: doExecute_def split: option.splits list.splits)
  from f have "\<exists>i<length [pos..<Suc (length s)]. [pos..<Suc (length s)] ! i = b"
    unfolding find_Some_iff by blast
  then have "pos \<le> b"
    by (auto simp del: upt_Suc)
  moreover from h have "(e, r', c) \<in> set (backtrack r b (drop b s) Map.empty)"
    by simp
  then have "b \<le> e"
    by (rule mono)
  ultimately have "pos < e"
    using ne by simp
  with bound
  show "((r, s, e, Some e), r, s, pos, prevMatchEnd) \<in> measure (\<lambda>(r, s, pos, prev). Suc (length s) - pos)"
    by auto
qed auto

declare allMatches.simps [simp del]

definition FindAllStringSubmatch :: "re \<Rightarrow> string \<Rightarrow> string list list" where
  "FindAllStringSubmatch r s = allMatches r s 0 None"

text \<open>\<open>filepath.Base\<close>: the last element of the path, trailing slashes removed first.\<close>

definition Base :: "string \<Rightarrow> string" where
  "Base path =
     (if path = [] then ''.''
      else let stripped = rev (dropWhile (\<lambda>x. x = CHR ''/'') (rev path));
               last_elem = rev (takeWhile (\<lambda>x. x \<noteq> CHR ''/'') (rev stripped))
           in if last_elem = [] then ''/'' else last_elem)"

text \<open>\<open>strings.Split\<close> for a non-empty separator; an empty one splits into characters.\<close>

fun splitN :: "nat \<Rightarrow> string \<Rightarrow> string \<Rightarrow> string list" where
  "splitN 0 s sep = [s]"
| "splitN (Suc k) s sep =
     (case Index s sep of
        None \<Rightarrow> [s]
      | Some j \<Rightarrow> take j s # splitN k (drop (j + length sep) s) sep)"

definition Split :: "string \<Rightarrow> string \<Rightarrow> string list" where
  "Split s sep = (if sep = [] then map (\<lambda>c. [c]) s else splitN (length s) s sep)"

section \<open>nav/page.go\<close>

subsection \<open>Constants\<close>

definition FILE_PATHS_REGEX :: string where
  "FILE_PATHS_REGEX =
     ''(?:http:/|https:/)?(/[A-Za-z0-9_/.-]+)|([A-Za-z0-9_/.-]+/[A-Za-z0-9_.-]*)''"

definition PACKAGE_GITHUB_REPO_URL_PREFIX :: string where
  "PACKAGE_GITHUB_REPO_URL_PREFIX = ''https://github.com/gruntwork-io/<package-name>/tree/master''"

definition PACKAGE_FILE_REGEX :: string where
  "PACKAGE_FILE_REGEX = ''^packages/(['' @ [CHR 0x5C] @ ''w -]+)(/.*)$''"

definition PACKAGE_FILE_REGEX_NUM_CAPTURE_GROUPS :: nat where
  "PACKAGE_FILE_REGEX_NUM_CAPTURE_GROUPS = 2"

definition MARKDOWN_FILE_PATH_REGEX :: string where
  "MARKDOWN_FILE_PATH_REGEX = ''^.*/(.*)'' @ [CHR 0x5C] @ ''.md$''"

definition MARKDOWN_FILE_PATH_REGEX_NUM_CAPTURE_GROUPS :: nat where
  "MARKDOWN_FILE_PATH_REGEX_NUM_CAPTURE_GROUPS = 1"

definition HTML_TEMPLATE_REL_PATH :: string where
  "HTML_TEMPLATE_REL_PATH = ''_html/doc_template.html''"

text \<open>
  The syntax trees that \<open>regexp.MustCompile\<close> builds from the three patterns.
  \<open>path_chars\<close> is \<open>[A-Za-z0-9_/.-]\<close>, \<open>name_chars\<close> is \<open>[A-Za-z0-9_.-]\<close> and
  \<open>word_space_dash\<close> is \<open>[\w -]\<close>, where \<open>\w\<close> is \<open>[0-9A-Za-z_]\<close>.  The dot
  does not match a newline, and without the multi-line flag \<open>^\<close> and \<open>$\<close> match at the
  two ends of the text only.
\<close>

definition path_chars :: cls where
  "path_chars = Ranges [(CHR ''A'', CHR ''Z''), (CHR ''a'', CHR ''z''), (CHR ''0'', CHR ''9''),
     (CHR ''_'', CHR ''_''), (CHR ''/'', CHR ''/''), (CHR ''.'', CHR ''.''), (CHR ''-'', CHR ''-'')]"

definition name_chars :: cls where
  "name_chars = Ranges [(CHR ''A'', CHR ''Z''), (CHR ''a'', CHR ''z''), (CHR ''0'', CHR ''9''),
     (CHR ''_'', CHR ''_''), (CHR ''.'', CHR ''.''), (CHR ''-'', CHR ''-'')]"

definition word_space_dash :: cls where
  "word_space_dash = Ranges [(CHR ''0'', CHR ''9''), (CHR ''A'', CHR ''Z''), (CHR ''_'', CHR ''_''),
     (CHR ''a'', CHR ''z''), (CHR '' '', CHR '' ''), (CHR ''-'', CHR ''-'')]"

definition file_paths_re :: re where
  "file_paths_re =
     Alt (Seq (Opt (Alt (Lit ''http:/'') (Lit ''https:/'')))
              (Grp 1 (Seq (Lit ''/'') (Plus path_chars))))
         (Grp 2 (Seq (Plus path_chars) (Seq (Lit ''/'') (Star name_chars))))"

definition package_file_re :: re where
  "package_file_re =
     Seq Bol (Seq (Lit ''packages/'') (Seq (Grp 1 (Plus word_space_dash))
       (Seq (Grp 2 (Seq (Lit ''/'') (Star NotNewline))) Eol)))"

definition markdown_file_path_re :: re where
  "markdown_file_path_re =
     Seq Bol (Seq (Star NotNewline) (Seq (Lit ''/'') (Seq (Grp 1 (Star NotNewline))
       (Seq (Lit ''.md'') Eol))))"

subsection \<open>Errors\<close>

text \<open>
  Go functions return a value together with an error; the model returns the pair, with
  \<open>None\<close> for a nil error.  A run-time panic on an index out of range is the error
  value \<open>IndexOutOfRangePanic\<close>.  \<open>ExternalError\<close> stands for the errors of the
  collaborators (file reading and writing, template parsing).
\<close>

datatype error =
    WrongNumberOfCaptureGroupsReturnedFromPageRegEx
      (err_inputPath: string) (err_regExName: string) (err_regEx: string)
  | IndexOutOfRangePanic
  | ExternalError string

text \<open>
  Modelled from the spec: \<open>errors.WithStackTrace\<close>, of the repository's errors package,
  is not among the sources.  It returns the error it is given with a stack trace attached
  ("all errors are value-returned with enough context"); the model keeps the error itself.
\<close>

definition WithStackTrace :: "error \<Rightarrow> error" where
  "WithStackTrace err = err"

text \<open>Reading \<open>xss[i][j]\<close>; \<open>None\<close> where Go panics.\<close>

definition index2 :: "string list list \<Rightarrow> nat \<Rightarrow> nat \<Rightarrow> string option" where
  "index2 xss i j =
     (if i < length xss \<and> j < length (xss ! i) then Some (xss ! i ! j) else None)"

subsection \<open>Data\<close>

record File =
  InputPath :: string
  FullInputPath :: string
  OutputPath :: string

text \<open>\<open>ParentFolder\<close> is a pointer to a folder of the navigation tree, here a reference.\<close>

record Page = File +
  Title :: string
  BodyMarkdown :: string
  BodyHtml :: string
  GithubUrl :: string
  ParentFolder :: "nat option"

text \<open>
  The collaborators of the page code: the repository's file package, the Markdown
  renderer, \<open>strings.Title\<close>, the navigation tree of the root folder and the HTML
  template package.  A parsed template is the function from the title, the body and the
  navigation tree to the text that executing it writes.
\<close>

record ext =
  file_ReadFile :: "string \<Rightarrow> string \<times> error option"
  file_WriteFile :: "string \<Rightarrow> string \<Rightarrow> error option"
  github_flavored_markdown :: "string \<Rightarrow> string"
  strings_Title :: "string \<Rightarrow> string"
  GetAsNavTreeHtml :: "Page \<Rightarrow> string"
  template_Parse :: "string \<Rightarrow> string \<Rightarrow> (string \<Rightarrow> string \<Rightarrow> string \<Rightarrow> string) \<times> error option"

subsection \<open>Link resolution\<close>

definition isPackageInputPath :: "string \<Rightarrow> bool" where
  "isPackageInputPath inputPath = MatchString package_file_re inputPath"

definition getPackageName :: "string \<Rightarrow> string \<times> error option" where
  "getPackageName inputPath =
     (let submatches = FindAllStringSubmatch package_file_re inputPath
      in if length submatches = 0
            \<or> length (submatches ! 0) \<noteq> PACKAGE_FILE_REGEX_NUM_CAPTURE_GROUPS + 1
         then ([], Some (WithStackTrace (WrongNumberOfCaptureGroupsReturnedFromPageRegEx
                 inputPath ''PACKAGE_FILE_REGEX'' PACKAGE_FILE_REGEX)))
         else (case index2 submatches 0 1 of
                 None \<Rightarrow> ([], Some IndexOutOfRangePanic)
               | Some subpath \<Rightarrow> (subpath, None)))"

definition getPathRelativeToPackageRoot :: "string \<Rightarrow> string \<times> error option" where
  "getPathRelativeToPackageRoot inputPath =
     (let submatches = FindAllStringSubmatch package_file_re inputPath
      in if length submatches = 0
            \<or> length (submatches ! 0) \<noteq> PACKAGE_FILE_REGEX_NUM_CAPTURE_GROUPS + 1
         then ([], Some (WithStackTrace (WrongNumberOfCaptureGroupsReturnedFromPageRegEx
                 inputPath ''PACKAGE_FILE_REGEX'' PACKAGE_FILE_REGEX)))
         else (case index2 submatches 0 2 of
                 None \<Rightarrow> ([], Some IndexOutOfRangePanic)
               | Some subpath \<Rightarrow> (subpath, None)))"

text \<open>
  \<open>convertPackageLinkToUrl\<close> runs three tests on the link one after the other, each of
  which may overwrite \<open>url\<close>; \<open>url\<close> starts as the empty string.
\<close>

definition convertPackageLinkToUrl :: "string \<Rightarrow> string \<Rightarrow> string \<times> error option" where
  "convertPackageLinkToUrl inputPath linkPath =
     (if isPackageInputPath inputPath then
        (case getPackageName inputPath of
           (packageName, Some err) \<Rightarrow> ([], Some (WithStackTrace err))
         | (packageName, None) \<Rightarrow>
             let urlPrefix = Replace PACKAGE_GITHUB_REPO_URL_PREFIX ''<package-name>'' packageName 1;
                 url = (if HasPrefix linkPath ''/'' then urlPrefix @ linkPath else [])
             in case (if HasPrefix linkPath ''./'' then
                        (case getPathRelativeToPackageRoot inputPath of
                           (relPath, Some err) \<Rightarrow> (url, Some (WithStackTrace err))
                         | (relPath, None) \<Rightarrow> (urlPrefix @ relPath, None))
                      else (url, None)) of
                  (url, Some err) \<Rightarrow> (url, Some err)
                | (url, None) \<Rightarrow>
                    if HasPrefix linkPath ''../'' then
                      (case getPathRelativeToPackageRoot inputPath of
                         (relPath, Some err) \<Rightarrow> (url, Some (WithStackTrace err))
                       | (relPath, None) \<Rightarrow>
                           (urlPrefix @ Join [relPath, ''../'', linkPath], None))
                    else (url, None))
      else (linkPath, None))"

subsection \<open>Rewriting the links of a body\<close>

definition getAllLinkPaths :: "string \<Rightarrow> string list" where
  "getAllLinkPaths body =
     (let submatches = FindAllStringSubmatch file_paths_re body
      in if length submatches = 0 then []
         else filter (\<lambda>relPath. \<not> Contains relPath ''http://'' \<and> \<not> Contains relPath ''https://'')
                (map (\<lambda>submatch. submatch ! 0) submatches))"

text \<open>The body of the loop over the link paths, and the loop.\<close>

definition replaceLinkPath :: "string \<Rightarrow> string \<Rightarrow> string \<Rightarrow> string" where
  "replaceLinkPath linkPath url newBody =
     (let linkPathWithParens = ''('' @ linkPath @ '')'';
          urlWithParens = ''('' @ url @ '')'';
          newBody = Replace newBody linkPathWithParens urlWithParens (- 1);
          linkPathWithSpaces = '' '' @ linkPath @ '' '';
          urlWithSpaces = '' '' @ url @ '' ''
      in Replace newBody linkPathWithSpaces urlWithSpaces (- 1))"

fun convertLoop :: "string \<Rightarrow> string list \<Rightarrow> string \<Rightarrow> string \<times> error option" where
  "convertLoop inputPath [] newBody = (newBody, None)"
| "convertLoop inputPath (linkPath # linkPaths) newBody =
     (case convertPackageLinkToUrl inputPath linkPath of
        (url, Some err) \<Rightarrow> (newBody, Some (WithStackTrace err))
      | (url, None) \<Rightarrow> convertLoop inputPath linkPaths (replaceLinkPath linkPath url newBody))"

definition convertMarkdownLinksToUrls :: "string \<Rightarrow> string \<Rightarrow> string \<times> error option" where
  "convertMarkdownLinksToUrls inputPath body = convertLoop inputPath (getAllLinkPaths body) body"

subsection \<open>Populating and writing a page\<close>

definition getTitle :: "ext \<Rightarrow> Page \<Rightarrow> string" where
  "getTitle x p =
     (let fileNameFull = Base (OutputPath p);
          fileNameComponents = Split fileNameFull ''.''
      in strings_Title x (hd fileNameComponents))"

definition getSanitizedMarkdownBody :: "ext \<Rightarrow> Page \<Rightarrow> string \<times> error option" where
  "getSanitizedMarkdownBody x p =
     (case file_ReadFile x (FullInputPath p) of
        (body, Some err) \<Rightarrow> (body, Some (WithStackTrace err))
      | (body, None) \<Rightarrow>
          (case convertMarkdownLinksToUrls (InputPath p) body of
             (body, Some err) \<Rightarrow> (body, Some (WithStackTrace err))
           | (body, None) \<Rightarrow> (body, None)))"

definition getHtmlFromMarkdown :: "ext \<Rightarrow> string \<Rightarrow> string" where
  "getHtmlFromMarkdown x markdown = github_flavored_markdown x markdown"

text \<open>The method updates the page in place; the model returns the page and the error.\<close>

definition PopulateAllProperties :: "ext \<Rightarrow> Page \<Rightarrow> Page \<times> error option" where
  "PopulateAllProperties x p =
     (let p = p\<lparr>Title := getTitle x p\<rparr>
      in case getSanitizedMarkdownBody x p of
           (body, Some err) \<Rightarrow> (p\<lparr>BodyMarkdown := body\<rparr>, Some (WithStackTrace err))
         | (body, None) \<Rightarrow>
             let p = p\<lparr>BodyMarkdown := body\<rparr>;
                 p = p\<lparr>BodyHtml := getHtmlFromMarkdown x (BodyMarkdown p)\<rparr>
             in case convertPackageLinkToUrl (InputPath p) ''./'' of
                  (url, Some err) \<Rightarrow> (p\<lparr>GithubUrl := url\<rparr>, Some (WithStackTrace err))
                | (url, None) \<Rightarrow> (p\<lparr>GithubUrl := url\<rparr>, None))"

definition replaceMdFileExtensionWithHtmlFileExtension :: "string \<Rightarrow> string \<times> error option" where
  "replaceMdFileExtensionWithHtmlFileExtension path =
     (let submatches = FindAllStringSubmatch markdown_file_path_re path
      in if length submatches = 0
            \<or> length (submatches ! 0) \<noteq> MARKDOWN_FILE_PATH_REGEX_NUM_CAPTURE_GROUPS + 1
         then ([], Some (WithStackTrace (WrongNumberOfCaptureGroupsReturnedFromPageRegEx
                 path ''MARKDOWN_FILE_PATH_REGEX'' MARKDOWN_FILE_PATH_REGEX)))
         else (case index2 submatches 0 1 of
                 None \<Rightarrow> ([], Some IndexOutOfRangePanic)
               | Some filename \<Rightarrow>
                   let filenameDotMd = filename @ ''.'' @ ''md'';
                       filenameDotHtml = filename @ ''.'' @ ''html''
                   in (Replace path filenameDotMd filenameDotHtml (- 1), None)))"

definition getFullHtml :: "ext \<Rightarrow> string \<Rightarrow> string \<Rightarrow> string \<Rightarrow> string \<times> error option" where
  "getFullHtml x pageBodyHtml navTreeHtml pageTitle =
     (let htmlTemplatePath = Join [HTML_TEMPLATE_REL_PATH]
      in case file_ReadFile x htmlTemplatePath of
           (htmlTemplateBody, Some err) \<Rightarrow> ([], Some (WithStackTrace err))
         | (htmlTemplateBody, None) \<Rightarrow>
             (case template_Parse x pageTitle htmlTemplateBody of
                (htmlTemplate, Some err) \<Rightarrow> ([], Some (WithStackTrace err))
              | (htmlTemplate, None) \<Rightarrow> (htmlTemplate pageTitle pageBodyHtml navTreeHtml, None)))"

text \<open>
  \<open>WriteFullPageHtmlToOutputPath\<close> returns the error and, when it reaches the call of
  \<open>file.WriteFile\<close>, the content and the path it hands over.  The line it prints to
  the standard output before the call is left out.
\<close>

definition WriteFullPageHtmlToOutputPath ::
  "ext \<Rightarrow> Page \<Rightarrow> string \<Rightarrow> (string \<times> string) option \<times> error option" where
  "WriteFullPageHtmlToOutputPath x p rootOutputPath =
     (let bodyHtml = BodyHtml p;
          navTreeHtml = GetAsNavTreeHtml x p
      in case getFullHtml x bodyHtml navTreeHtml (Title p) of
           (fullHtml, Some err) \<Rightarrow> (None, Some (WithStackTrace err))
         | (fullHtml, None) \<Rightarrow>
             let absOutputPath = Join [rootOutputPath, OutputPath p]
             in case replaceMdFileExtensionWithHtmlFileExtension absOutputPath of
                  (absOutputPathDotHtml, Some err) \<Rightarrow> (None, Some (WithStackTrace err))
                | (absOutputPathDotHtml, None) \<Rightarrow>
                    (case file_WriteFile x fullHtml absOutputPathDotHtml of
                       Some err \<Rightarrow> (Some (fullHtml, absOutputPathDotHtml), Some (WithStackTrace err))
                     | None \<Rightarrow> (Some (fullHtml, absOutputPathDotHtml), None)))"

text \<open>\<open>NewPage\<close>: the page of a file, its other fields at their zero values.\<close>

definition NewPage :: "File \<Rightarrow> Page" where
  "NewPage file =
     \<lparr>InputPath = InputPath file, FullInputPath = FullInputPath file,
      OutputPath = OutputPath file, Title = [], BodyMarkdown = [], BodyHtml = [],
      GithubUrl = [], ParentFolder = None\<rparr>"

subsection \<open>Replacing the instances of a token in its context\<close>

text \<open>
  \<open>replaces_instances old new s r\<close>: \<open>r\<close> is \<open>s\<close> with the leftmost non-overlapping
  instances of \<open>old\<close> replaced by \<open>new\<close> and the text between them kept.  An instance
  is leftmost when \<open>old\<close> does not begin earlier, that is, does not occur in the text
  before it extended by all but the last character of \<open>old\<close>; the search goes on behind
  the instance, and ends when \<open>old\<close> occurs no more.

  \<open>rewrites_candidates url ls b r\<close>: the candidates \<open>ls\<close> are handled in their order;
  for each, its instances between parentheses are replaced by its URL between
  parentheses, and then its instances between two single spaces by its URL between two
  single spaces.
\<close>

inductive replaces_instances :: "string \<Rightarrow> string \<Rightarrow> string \<Rightarrow> string \<Rightarrow> bool"
  for old new where
    none_left: "\<not> Contains s old \<Longrightarrow> replaces_instances old new s s"
  | leftmost: "\<not> Contains (pre @ butlast old) old \<Longrightarrow> replaces_instances old new post r \<Longrightarrow>
               replaces_instances old new (pre @ old @ post) (pre @ new @ r)"

inductive rewrites_candidates :: "(string \<Rightarrow> string) \<Rightarrow> string list \<Rightarrow> string \<Rightarrow> string \<Rightarrow> bool"
  for url where
    no_candidate: "rewrites_candidates url [] b b"
  | candidate: "replaces_instances (''('' @ l @ '')'') (''('' @ url l @ '')'') b b1 \<Longrightarrow>
                replaces_instances ('' '' @ l @ '' '') ('' '' @ url l @ '' '') b1 b2 \<Longrightarrow>
                rewrites_candidates url ls b2 r \<Longrightarrow>
                rewrites_candidates url (l # ls) b r"

subsection \<open>Sample collaborators\<close>

text \<open>
  Collaborators that always succeed: every source file holds one line of Markdown with a
  link, the template file holds \<open>T\<close>, and executing the template writes its text, the
  title, the navigation tree and the body one after the other.
\<close>

definition sample_ext :: ext where
  "sample_ext =
     \<lparr>file_ReadFile =
        (\<lambda>path. if path = HTML_TEMPLATE_REL_PATH then (''T'', None)
                else (''See [up](../b.md)'', None)),
      file_WriteFile = (\<lambda>content path. None),
      github_flavored_markdown = (\<lambda>markdown. markdown),
      strings_Title = (\<lambda>s. s),
      GetAsNavTreeHtml = (\<lambda>p. []),
      template_Parse = (\<lambda>name body. (\<lambda>title pageBody navTree. body @ title @ navTree @ pageBody, None))\<rparr>"

definition sample_page :: "string \<Rightarrow> string \<Rightarrow> Page" where
  "sample_page inputPath outputPath =
     NewPage \<lparr>InputPath = inputPath, FullInputPath = ''/docs/'' @ inputPath,
              OutputPath = outputPath\<rparr>"

section \<open>Facts about the library model\<close>

subsection \<open>The backtracking search\<close>

lemma star_run_sound:
  "(p', r') \<in> set (star_run k p r) \<Longrightarrow>
     \<exists>u. r = u @ r' \<and> p' = p + length u \<and> (\<forall>x\<in>set u. in_cls k x)"
proof (induction r arbitrary: p)
  case Nil
  then show ?case by simp
next
  case (Cons x xs)
  show ?case
  proof (cases "(p', r') = (p, x # xs)")
    case True
    then show ?thesis by simp
  next
    case False
    with Cons.prems have inx: "in_cls k x" and "(p', r') \<in> set (star_run k (Suc p) xs)"
      by (auto split: if_splits)
    from Cons.IH [OF this(2)] obtain u where
      "xs = u @ r'" "p' = Suc p + length u" "\<forall>x\<in>set u. in_cls k x"
      by blast
    with inx have "x # xs = (x # u) @ r' \<and> p' = p + length (x # u) \<and> (\<forall>y\<in>set (x # u). in_cls k y)"
      by simp
    then show ?thesis by blast
  qed
qed

lemma star_run_stop:
  "r = [] \<or> \<not> in_cls k (hd r) \<Longrightarrow> star_run k p r = [(p, r)]"
  by (cases r) auto

lemma star_run_append:
  "\<forall>x\<in>set u. in_cls k x \<Longrightarrow>
     star_run k p (u @ r) = star_run k (p + length u) r @ rev (map (\<lambda>j. (p + j, drop j u @ r)) [0..<length u])"
proof (induction u arbitrary: p)
  case Nil
  then show ?case by simp
next
  case (Cons x xs)
  have "map (\<lambda>j. (p + j, drop j (x # xs) @ r)) [0..<length (x # xs)]
      = (p, x # xs @ r) # map (\<lambda>j. (Suc p + j, drop j xs @ r)) [0..<length xs]"
  proof -
    have "[Suc 0..<Suc (length xs)] = map Suc [0..<length xs]"
      by (simp only: map_Suc_upt)
    then show ?thesis
      by (simp add: upt_conv_Cons del: upt_Suc)
  qed
  with Cons show ?case
    by simp
qed

lemma concat_map_first:
  "\<forall>a\<in>set as. f a = [] \<Longrightarrow> concat (map f (as @ x # bs)) = f x @ concat (map f bs)"
  by simp

lemma backtrack_Star:
  assumes "\<forall>x\<in>set u. in_cls k x" and "r = [] \<or> \<not> in_cls k (hd r)"
  shows "backtrack (Star k) p (u @ r) c = map (\<lambda>j. (p + j, drop j u @ r, c)) (rev [0..<Suc (length u)])"
  using assms by (simp add: star_run_append star_run_stop rev_map o_def del: upt_Suc) simp

lemma slash_not_wsd [simp]: "\<not> in_cls word_space_dash (CHR ''/'')"
  by (simp add: word_space_dash_def)

lemma package_re_match:
  assumes pkg: "pkg \<noteq> []" "\<forall>x\<in>set pkg. in_cls word_space_dash x"
    and rest: "CHR 0x0A \<notin> set rest"
  shows "backtrack package_file_re 0 (''packages/'' @ pkg @ ''/'' @ rest) c =
           [(10 + length pkg + length rest, [], c(1 \<mapsto> pkg, 2 \<mapsto> ''/'' @ rest))]"
proof -
  from pkg obtain x xs where xs: "pkg = x # xs"
    by (cases pkg) auto
  define K where "K = Seq (Grp 2 (Seq (Lit ''/'') (Star NotNewline))) Eol"
  define G where "G = Grp 1 (Plus word_space_dash)"
  have re: "package_file_re = Seq Bol (Seq (Lit ''packages/'') (Seq G K))"
    by (simp add: package_file_re_def K_def G_def)
  have tail: "backtrack K p (CHR ''/'' # rest) d = [(Suc p + length rest, [], d(2 \<mapsto> ''/'' @ rest))]" for p d
  proof -
    have "\<forall>x\<in>set rest. in_cls NotNewline x"
      using rest by auto
    from backtrack_Star [OF this, of "[]"]
    have "backtrack (Star NotNewline) q rest d = map (\<lambda>j. (q + j, drop j rest, d)) (rev [0..<Suc (length rest)])" for q
      by simp
    then show ?thesis
      by (simp add: o_def K_def)
  qed
  have short: "backtrack K p (drop j xs @ CHR ''/'' # rest) d = []" if "j < length xs" for j p d
  proof -
    from that have "drop j xs = xs ! j # drop (Suc j) xs"
      by (simp add: Cons_nth_drop_Suc)
    moreover from that pkg xs have "in_cls word_space_dash (xs ! j)"
      by simp
    then have "xs ! j \<noteq> CHR ''/''"
      by auto
    ultimately show ?thesis
      by (simp add: K_def)
  qed
  have all: "\<forall>x\<in>set xs. in_cls word_space_dash x" and x: "in_cls word_space_dash x"
    using pkg xs by simp_all
  have star: "backtrack (Star word_space_dash) p (xs @ CHR ''/'' # rest) d
      = map (\<lambda>j. (p + j, drop j xs @ CHR ''/'' # rest, d)) (rev [0..<Suc (length xs)])" for p d
    using backtrack_Star [OF all, of "CHR ''/'' # rest"] by simp
  have g: "backtrack G p (x # xs @ CHR ''/'' # rest) d
      = map (\<lambda>j. (Suc p + j, drop j xs @ CHR ''/'' # rest, d(1 \<mapsto> x # take j xs)))
          (rev [0..<Suc (length xs)])" for p d
    unfolding G_def Plus_def
    by (simp add: x star o_def del: backtrack.simps(3) upt_Suc)
  have "backtrack (Seq G K) p (x # xs @ CHR ''/'' # rest) d
      = [(Suc (Suc p) + length xs + length rest, [], d(1 \<mapsto> x # xs, 2 \<mapsto> ''/'' @ rest))]" for p d
    by (simp add: g o_def tail short)
  then show ?thesis
    unfolding re xs by simp
qed

lemma package_re_anchored: "i \<noteq> 0 \<Longrightarrow> backtrack package_file_re i t c = []"
  by (simp add: package_file_re_def)

lemma package_re_sound:
  assumes "backtrack package_file_re 0 s c \<noteq> []"
  shows "\<exists>pkg rest. s = ''packages/'' @ pkg @ ''/'' @ rest \<and> pkg \<noteq> []
           \<and> (\<forall>x\<in>set pkg. in_cls word_space_dash x) \<and> CHR 0x0A \<notin> set rest"
proof -
  from assms obtain th where "th \<in> set (backtrack package_file_re 0 s c)"
    by (cases "backtrack package_file_re 0 s c") auto
  then have "\<exists>x xs q p1 zs p2. s = ''packages/'' @ x # xs \<and> in_cls word_space_dash x
      \<and> (p1, CHR ''/'' # zs) \<in> set (star_run word_space_dash q xs)
      \<and> (p2, []) \<in> set (star_run NotNewline (Suc p1) zs)"
    by (auto simp: package_file_re_def Plus_def prefix_def split: if_splits list.splits) blast
  then obtain x xs q p1 zs p2 where
    s: "s = ''packages/'' @ x # xs" and x: "in_cls word_space_dash x"
    and st: "(p1, CHR ''/'' # zs) \<in> set (star_run word_space_dash q xs)"
    and st2: "(p2, []) \<in> set (star_run NotNewline (Suc p1) zs)"
    by blast
  from star_run_sound [OF st] obtain u where
    u: "xs = u @ CHR ''/'' # zs" "\<forall>x\<in>set u. in_cls word_space_dash x"
    by blast
  from star_run_sound [OF st2] have "\<forall>x\<in>set zs. in_cls NotNewline x"
    by auto
  then have "CHR 0x0A \<notin> set zs"
    by auto
  with s x u have "s = ''packages/'' @ (x # u) @ ''/'' @ zs \<and> x # u \<noteq> []
      \<and> (\<forall>y\<in>set (x # u). in_cls word_space_dash y) \<and> CHR 0x0A \<notin> set zs"
    by simp
  then show ?thesis
    by blast
qed

subsection \<open>Patterns anchored at the start of the text\<close>

lemma doExecute_anchored:
  assumes "\<And>i t c. i \<noteq> 0 \<Longrightarrow> backtrack r i t c = []"
  shows "doExecute r s pos =
           (if pos = 0 then
              (case backtrack r 0 s Map.empty of [] \<Rightarrow> None | (e, _, c) # _ \<Rightarrow> Some (0, e, c))
            else None)"
proof (cases "pos = 0")
  case True
  have "List.find (\<lambda>i. backtrack r i (drop i s) Map.empty \<noteq> []) [Suc 0..<Suc (length s)] = None"
    by (simp add: find_None_iff assms del: upt_Suc)
  then show ?thesis
    using True by (simp add: doExecute_def upt_conv_Cons del: upt_Suc split: list.splits)
next
  case False
  then have "List.find (\<lambda>i. backtrack r i (drop i s) Map.empty \<noteq> []) [pos..<Suc (length s)] = None"
    by (simp add: find_None_iff assms del: upt_Suc)
  with False show ?thesis
    by (simp add: doExecute_def)
qed

lemma FindAll_anchored_match:
  assumes anch: "\<And>i t c. i \<noteq> 0 \<Longrightarrow> backtrack r i t c = []"
    and m: "backtrack r 0 s Map.empty = (e, r', c) # ths" and e: "e \<noteq> 0"
  shows "FindAllStringSubmatch r s = [submatch r s 0 e c]"
proof -
  have "allMatches r s e (Some e) = []"
    by (subst allMatches.simps) (simp add: doExecute_anchored [of r, OF anch] e)
  then show ?thesis
    unfolding FindAllStringSubmatch_def
    by (subst allMatches.simps) (simp add: doExecute_anchored [of r, OF anch] m e)
qed

lemma FindAll_anchored_nomatch:
  assumes anch: "\<And>i t c. i \<noteq> 0 \<Longrightarrow> backtrack r i t c = []"
    and m: "backtrack r 0 s Map.empty = []"
  shows "FindAllStringSubmatch r s = []"
  unfolding FindAllStringSubmatch_def
  by (subst allMatches.simps) (simp add: doExecute_anchored [of r, OF anch] m)

lemma MatchString_anchored:
  assumes anch: "\<And>i t c. i \<noteq> 0 \<Longrightarrow> backtrack r i t c = []"
  shows "MatchString r s \<longleftrightarrow> backtrack r 0 s Map.empty \<noteq> []"
  by (simp add: MatchString_def doExecute_anchored [of r, OF anch] split: list.splits)

lemma isPackageInputPath_iff:
  "isPackageInputPath s \<longleftrightarrow>
     (\<exists>pkg rest. s = ''packages/'' @ pkg @ ''/'' @ rest \<and> pkg \<noteq> []
        \<and> (\<forall>x\<in>set pkg. in_cls word_space_dash x) \<and> CHR 0x0A \<notin> set rest)"
proof
  assume "isPackageInputPath s"
  then have "backtrack package_file_re 0 s Map.empty \<noteq> []"
    by (simp add: isPackageInputPath_def MatchString_anchored [OF package_re_anchored])
  then show "\<exists>pkg rest. s = ''packages/'' @ pkg @ ''/'' @ rest \<and> pkg \<noteq> []
        \<and> (\<forall>x\<in>set pkg. in_cls word_space_dash x) \<and> CHR 0x0A \<notin> set rest"
    by (rule package_re_sound)
next
  assume "\<exists>pkg rest. s = ''packages/'' @ pkg @ ''/'' @ rest \<and> pkg \<noteq> []
        \<and> (\<forall>x\<in>set pkg. in_cls word_space_dash x) \<and> CHR 0x0A \<notin> set rest"
  then obtain pkg rest where "s = ''packages/'' @ pkg @ ''/'' @ rest" "pkg \<noteq> []"
    "\<forall>x\<in>set pkg. in_cls word_space_dash x" "CHR 0x0A \<notin> set rest"
    by blast
  then have "backtrack package_file_re 0 s Map.empty \<noteq> []"
    using package_re_match [of pkg rest Map.empty] by simp
  then show "isPackageInputPath s"
    by (simp add: isPackageInputPath_def MatchString_anchored [OF package_re_anchored])
qed

lemma package_FindAll:
  assumes "pkg \<noteq> []" "\<forall>x\<in>set pkg. in_cls word_space_dash x" "CHR 0x0A \<notin> set rest"
  shows "FindAllStringSubmatch package_file_re (''packages/'' @ pkg @ ''/'' @ rest)
           = [[''packages/'' @ pkg @ ''/'' @ rest, pkg, ''/'' @ rest]]"
proof -
  have n: "ngroups package_file_re = 2"
    by (simp add: package_file_re_def Plus_def)
  have "[Suc 0..<Suc 2] = [1, 2]"
    by (simp add: upt_conv_Cons)
  then have "submatch package_file_re (''packages/'' @ pkg @ ''/'' @ rest) 0 (10 + length pkg + length rest)
         (Map.empty(1 \<mapsto> pkg, 2 \<mapsto> ''/'' @ rest))
       = [''packages/'' @ pkg @ ''/'' @ rest, pkg, ''/'' @ rest]"
    by (simp add: submatch_def n del: upt_Suc)
  with FindAll_anchored_match [OF package_re_anchored package_re_match [OF assms, of Map.empty]]
  show ?thesis
    by simp
qed

lemma getPackageName_ok:
  assumes "pkg \<noteq> []" "\<forall>x\<in>set pkg. in_cls word_space_dash x" "CHR 0x0A \<notin> set rest"
  shows "getPackageName (''packages/'' @ pkg @ ''/'' @ rest) = (pkg, None)"
  by (simp add: getPackageName_def package_FindAll [OF assms] index2_def
      PACKAGE_FILE_REGEX_NUM_CAPTURE_GROUPS_def del: append.simps)

lemma getPathRelativeToPackageRoot_ok:
  assumes "pkg \<noteq> []" "\<forall>x\<in>set pkg. in_cls word_space_dash x" "CHR 0x0A \<notin> set rest"
  shows "getPathRelativeToPackageRoot (''packages/'' @ pkg @ ''/'' @ rest) = (''/'' @ rest, None)"
  by (simp add: getPathRelativeToPackageRoot_def package_FindAll [OF assms] index2_def
      PACKAGE_FILE_REGEX_NUM_CAPTURE_GROUPS_def del: append.simps)

lemma url_prefix:
  "Replace PACKAGE_GITHUB_REPO_URL_PREFIX ''<package-name>'' pkg 1
     = ''https://github.com/gruntwork-io/'' @ pkg @ ''/tree/master''"
  by (simp add: Replace_def PACKAGE_GITHUB_REPO_URL_PREFIX_def)

section \<open>The link resolver\<close>

lemma package_shape:
  assumes "isPackageInputPath ip"
  obtains pkg rest where "ip = ''packages/'' @ pkg @ ''/'' @ rest" "pkg \<noteq> []"
    "\<forall>x\<in>set pkg. in_cls word_space_dash x" "CHR 0x0A \<notin> set rest"
    "getPackageName ip = (pkg, None)" "getPathRelativeToPackageRoot ip = (''/'' @ rest, None)"
proof -
  from assms obtain pkg rest where *: "ip = ''packages/'' @ pkg @ ''/'' @ rest" "pkg \<noteq> []"
    "\<forall>x\<in>set pkg. in_cls word_space_dash x" "CHR 0x0A \<notin> set rest"
    unfolding isPackageInputPath_iff by blast
  from getPackageName_ok [OF *(2-4)] getPathRelativeToPackageRoot_ok [OF *(2-4)] * that
  show thesis
    by blast
qed

lemma convert_package:
  assumes "isPackageInputPath ip" "getPackageName ip = (pkg, None)"
    "getPathRelativeToPackageRoot ip = (rel, None)"
  shows "convertPackageLinkToUrl ip lp =
     (let urlPrefix = ''https://github.com/gruntwork-io/'' @ pkg @ ''/tree/master''
      in if HasPrefix lp ''../'' then (urlPrefix @ Join [rel, ''../'', lp], None)
         else if HasPrefix lp ''./'' then (urlPrefix @ rel, None)
         else if HasPrefix lp ''/'' then (urlPrefix @ lp, None)
         else ([], None))"
  using assms by (simp add: convertPackageLinkToUrl_def url_prefix Let_def del: append.simps Join.simps)

lemma convert_no_error: "snd (convertPackageLinkToUrl ip lp) = None"
proof (cases "isPackageInputPath ip")
  case True
  then obtain pkg rest where "getPackageName ip = (pkg, None)"
    "getPathRelativeToPackageRoot ip = (''/'' @ rest, None)"
    by (rule package_shape)
  from convert_package [OF True this] show ?thesis
    by (simp add: Let_def del: append.simps Join.simps)
next
  case False
  then show ?thesis
    by (simp add: convertPackageLinkToUrl_def)
qed

text \<open>
  C3: an input path that is not of the shape \<open>packages/<pkg>/...\<close>, with a non-empty
  \<open><pkg>\<close> of characters of \<open>[\w -]\<close>, is not a package input path, and
  \<open>convertPackageLinkToUrl\<close> returns every link path unchanged with a nil error.
\<close>

theorem non_package_link_unchanged:
  assumes "\<not> (\<exists>pkg rest. inputPath = ''packages/'' @ pkg @ ''/'' @ rest \<and> pkg \<noteq> []
             \<and> (\<forall>x\<in>set pkg. in_cls word_space_dash x))"
  shows "\<not> isPackageInputPath inputPath
       \<and> convertPackageLinkToUrl inputPath linkPath = (linkPath, None)"
proof -
  from assms have "\<not> isPackageInputPath inputPath"
    unfolding isPackageInputPath_iff by blast
  then show ?thesis
    by (simp add: convertPackageLinkToUrl_def)
qed

theorem non_package_link_unchanged_witness:
  "\<not> (\<exists>pkg rest. ''packages5/some_otherPackageName/modules/modname/README.md''
          = ''packages/'' @ pkg @ ''/'' @ rest \<and> pkg \<noteq> []
          \<and> (\<forall>x\<in>set pkg. in_cls word_space_dash x))
   \<and> \<not> isPackageInputPath ''packages5/some_otherPackageName/modules/modname/README.md''
   \<and> convertPackageLinkToUrl ''packages5/some_otherPackageName/modules/modname/README.md''
        ''../vpc/README.md'' = (''../vpc/README.md'', None)"
  using non_package_link_unchanged
    [of "''packages5/some_otherPackageName/modules/modname/README.md''" "''../vpc/README.md''"]
  by simp

text \<open>
  C9: for a package input path and a link path that begins with none of \<open>/\<close>,
  \<open>./\<close> and \<open>../\<close>, \<open>convertPackageLinkToUrl\<close> returns the empty string and a nil
  error.
\<close>

theorem bare_relative_link_empty_url:
  assumes "isPackageInputPath inputPath"
    and "\<not> HasPrefix linkPath ''/''" "\<not> HasPrefix linkPath ''./''" "\<not> HasPrefix linkPath ''../''"
  shows "convertPackageLinkToUrl inputPath linkPath = ([], None)"
proof -
  from assms(1) obtain pkg rest where "getPackageName inputPath = (pkg, None)"
    "getPathRelativeToPackageRoot inputPath = (''/'' @ rest, None)"
    by (rule package_shape)
  from convert_package [OF assms(1) this] assms(2-4) show ?thesis
    by (simp add: Let_def del: append.simps Join.simps)
qed

theorem bare_relative_link_empty_url_witness:
  "isPackageInputPath ''packages/module-vpc/modules/vpc-app/README.md''
   \<and> \<not> HasPrefix ''foo/bar'' ''/'' \<and> \<not> HasPrefix ''foo/bar'' ''./''
   \<and> \<not> HasPrefix ''foo/bar'' ''../''
   \<and> convertPackageLinkToUrl ''packages/module-vpc/modules/vpc-app/README.md'' ''foo/bar''
        = ([], None)"
proof -
  have h: "isPackageInputPath ''packages/module-vpc/modules/vpc-app/README.md''"
    by code_simp
  have n: "\<not> HasPrefix ''foo/bar'' ''/''" "\<not> HasPrefix ''foo/bar'' ''./''"
    "\<not> HasPrefix ''foo/bar'' ''../''"
    by (simp_all add: HasPrefix_def)
  from bare_relative_link_empty_url [OF h n] h n show ?thesis
    by simp
qed

text \<open>
  C10: when \<open>isPackageInputPath\<close> holds of the input path, \<open>getPackageName\<close> and
  \<open>getPathRelativeToPackageRoot\<close> return a nil error, and so does
  \<open>convertPackageLinkToUrl\<close> for every link path.
\<close>

theorem package_path_no_error:
  assumes "isPackageInputPath inputPath"
  shows "snd (getPackageName inputPath) = None
       \<and> snd (getPathRelativeToPackageRoot inputPath) = None
       \<and> snd (convertPackageLinkToUrl inputPath linkPath) = None"
proof -
  from assms obtain pkg rest where "getPackageName inputPath = (pkg, None)"
    "getPathRelativeToPackageRoot inputPath = (''/'' @ rest, None)"
    by (rule package_shape)
  then show ?thesis
    by (simp add: convert_no_error)
qed

theorem package_path_no_error_witness:
  "isPackageInputPath ''packages/package-vpc/README.md''
   \<and> snd (getPackageName ''packages/package-vpc/README.md'') = None
   \<and> snd (getPathRelativeToPackageRoot ''packages/package-vpc/README.md'') = None
   \<and> snd (convertPackageLinkToUrl ''packages/package-vpc/README.md'' ''../other/README.md'') = None"
proof -
  have h: "isPackageInputPath ''packages/package-vpc/README.md''"
    by code_simp
  from package_path_no_error [OF h] h show ?thesis
    by simp
qed

text \<open>
  C7: for a package input path \<open>packages/<pkg><rel>\<close> and a link path that begins with
  \<open>../\<close>, \<open>convertPackageLinkToUrl\<close> returns
  \<open>https://github.com/gruntwork-io/<pkg>/tree/master\<close> followed by the cleaned join
  (\<open>filepath.Join\<close>, which collapses \<open>..\<close> elements) of \<open><rel>\<close>, \<open>../\<close> and the
  link path, and a nil error.
\<close>

theorem parent_relative_link_url:
  assumes "isPackageInputPath inputPath" and "HasPrefix linkPath ''../''"
  shows "\<exists>pkg rel. inputPath = ''packages/'' @ pkg @ rel \<and> pkg \<noteq> []
           \<and> (\<forall>x\<in>set pkg. in_cls word_space_dash x) \<and> HasPrefix rel ''/''
           \<and> convertPackageLinkToUrl inputPath linkPath
               = (''https://github.com/gruntwork-io/'' @ pkg @ ''/tree/master''
                    @ Join [rel, ''../'', linkPath], None)"
proof -
  from assms(1) obtain pkg rest where *: "inputPath = ''packages/'' @ pkg @ ''/'' @ rest" "pkg \<noteq> []"
    "\<forall>x\<in>set pkg. in_cls word_space_dash x"
    "getPackageName inputPath = (pkg, None)"
    "getPathRelativeToPackageRoot inputPath = (''/'' @ rest, None)"
    by (rule package_shape)
  from convert_package [OF assms(1) *(4,5)] assms(2)
  have "convertPackageLinkToUrl inputPath linkPath
      = (''https://github.com/gruntwork-io/'' @ pkg @ ''/tree/master''
           @ Join [''/'' @ rest, ''../'', linkPath], None)"
    by (simp add: Let_def del: append.simps Join.simps)
  with * have "inputPath = ''packages/'' @ pkg @ (''/'' @ rest) \<and> pkg \<noteq> []
           \<and> (\<forall>x\<in>set pkg. in_cls word_space_dash x) \<and> HasPrefix (''/'' @ rest) ''/''
           \<and> convertPackageLinkToUrl inputPath linkPath
               = (''https://github.com/gruntwork-io/'' @ pkg @ ''/tree/master''
                    @ Join [''/'' @ rest, ''../'', linkPath], None)"
    by (simp add: HasPrefix_def del: Join.simps)
  then show ?thesis
    by blast
qed

theorem parent_relative_link_url_witness:
  "isPackageInputPath ''packages/module-vpc/modules/vpc-app/README.md''
   \<and> HasPrefix ''../vpc-mgmt/README.md'' ''../''
   \<and> (\<exists>pkg rel. ''packages/module-vpc/modules/vpc-app/README.md'' = ''packages/'' @ pkg @ rel
          \<and> pkg \<noteq> [] \<and> (\<forall>x\<in>set pkg. in_cls word_space_dash x) \<and> HasPrefix rel ''/''
          \<and> convertPackageLinkToUrl ''packages/module-vpc/modules/vpc-app/README.md''
               ''../vpc-mgmt/README.md''
             = (''https://github.com/gruntwork-io/'' @ pkg @ ''/tree/master''
                  @ Join [rel, ''../'', ''../vpc-mgmt/README.md''], None))
   \<and> convertPackageLinkToUrl ''packages/module-vpc/modules/vpc-app/README.md''
        ''../vpc-mgmt/README.md''
      = (''https://github.com/gruntwork-io/module-vpc/tree/master/modules/vpc-mgmt/README.md'',
         None)"
proof -
  have h: "isPackageInputPath ''packages/module-vpc/modules/vpc-app/README.md''"
    by code_simp
  have l: "HasPrefix ''../vpc-mgmt/README.md'' ''../''"
    by (simp add: HasPrefix_def)
  have v: "convertPackageLinkToUrl ''packages/module-vpc/modules/vpc-app/README.md''
        ''../vpc-mgmt/README.md''
      = (''https://github.com/gruntwork-io/module-vpc/tree/master/modules/vpc-mgmt/README.md'',
         None)"
    by code_simp
  from parent_relative_link_url [OF h l] h l v show ?thesis
    by blast
qed

lemma same_directory_link_ignores_remainder:
  assumes "isPackageInputPath inputPath" and "HasPrefix linkPath ''./''"
  shows "convertPackageLinkToUrl inputPath linkPath = convertPackageLinkToUrl inputPath ''./''"
proof -
  from assms(1) obtain pkg rest where *: "getPackageName inputPath = (pkg, None)"
    "getPathRelativeToPackageRoot inputPath = (''/'' @ rest, None)"
    by (rule package_shape)
  from assms(2) have "\<not> HasPrefix linkPath ''../''"
    by (auto simp: HasPrefix_def prefix_def)
  with convert_package [OF assms(1) *, of linkPath] convert_package [OF assms(1) *, of "''./''"]
    assms(2)
  show ?thesis
    by (simp add: Let_def HasPrefix_def del: append.simps Join.simps)
qed

text \<open>
  C1: for a package input path and a link path that begins with \<open>./\<close>, the URL is to
  end with the path relative to the package root followed by what follows \<open>./\<close> in the
  link path.  The branch for \<open>./\<close> does not read the link path beyond the test of its
  prefix: here the link \<open>./core-concepts.md\<close> resolves to the URL of the page itself, and
  \<open>core-concepts.md\<close> is lost.
\<close>

theorem same_directory_link_remainder_dropped:
  "convertPackageLinkToUrl ''packages/module-vpc/modules/vpc-app/README.md'' ''./core-concepts.md''
     = (''https://github.com/gruntwork-io/module-vpc/tree/master/modules/vpc-app/README.md'', None)"
  by code_simp

lemma convertLoop_no_error: "snd (convertLoop ip ls b) = None"
proof (induction ls arbitrary: b)
  case Nil
  then show ?case by simp
next
  case (Cons l ls)
  obtain url where "convertPackageLinkToUrl ip l = (url, None)"
    using convert_no_error [of ip l] by (cases "convertPackageLinkToUrl ip l") auto
  with Cons show ?case
    by simp
qed

lemma convertMarkdownLinksToUrls_no_error: "snd (convertMarkdownLinksToUrls ip body) = None"
  by (simp add: convertMarkdownLinksToUrls_def convertLoop_no_error)

text \<open>
  C8: when the source file of a page can be read, \<open>PopulateAllProperties\<close> returns no
  error and sets \<open>GithubUrl\<close> to what \<open>convertPackageLinkToUrl\<close> returns for the
  page's own input path and the link \<open>./\<close>; for a package input path
  \<open>packages/<pkg><rel>\<close> this is \<open>https://github.com/gruntwork-io/<pkg>/tree/master\<close>
  followed by \<open><rel>\<close>.  When the file cannot be read the method returns the error
  before it reaches the assignment.
\<close>

theorem populate_sets_github_url:
  assumes "snd (file_ReadFile x (FullInputPath p)) = None"
  shows "snd (PopulateAllProperties x p) = None
       \<and> GithubUrl (fst (PopulateAllProperties x p))
           = fst (convertPackageLinkToUrl (InputPath p) ''./'')
       \<and> (isPackageInputPath (InputPath p) \<longrightarrow>
            (\<exists>pkg rel. InputPath p = ''packages/'' @ pkg @ rel \<and> pkg \<noteq> []
               \<and> (\<forall>x\<in>set pkg. in_cls word_space_dash x) \<and> HasPrefix rel ''/''
               \<and> GithubUrl (fst (PopulateAllProperties x p))
                   = ''https://github.com/gruntwork-io/'' @ pkg @ ''/tree/master'' @ rel))"
proof -
  from assms obtain body where rd: "file_ReadFile x (FullInputPath p) = (body, None)"
    by (cases "file_ReadFile x (FullInputPath p)") auto
  obtain body' where cv: "convertMarkdownLinksToUrls (InputPath p) body = (body', None)"
    using convertMarkdownLinksToUrls_no_error [of "InputPath p" body]
    by (cases "convertMarkdownLinksToUrls (InputPath p) body") auto
  obtain url where url: "convertPackageLinkToUrl (InputPath p) ''./'' = (url, None)"
    using convert_no_error [of "InputPath p" "''./''"]
    by (cases "convertPackageLinkToUrl (InputPath p) ''./''") auto
  from rd cv have san: "getSanitizedMarkdownBody x (p\<lparr>Title := t\<rparr>) = (body', None)" for t
    by (simp add: getSanitizedMarkdownBody_def)
  from san url have pop: "snd (PopulateAllProperties x p) = None"
    "GithubUrl (fst (PopulateAllProperties x p)) = url"
    by (simp_all add: PopulateAllProperties_def Let_def)
  have "\<exists>pkg rel. InputPath p = ''packages/'' @ pkg @ rel \<and> pkg \<noteq> []
               \<and> (\<forall>x\<in>set pkg. in_cls word_space_dash x) \<and> HasPrefix rel ''/''
               \<and> url = ''https://github.com/gruntwork-io/'' @ pkg @ ''/tree/master'' @ rel"
    if pk: "isPackageInputPath (InputPath p)"
  proof -
    from pk obtain pkg rest where *: "InputPath p = ''packages/'' @ pkg @ ''/'' @ rest" "pkg \<noteq> []"
      "\<forall>x\<in>set pkg. in_cls word_space_dash x"
      "getPackageName (InputPath p) = (pkg, None)"
      "getPathRelativeToPackageRoot (InputPath p) = (''/'' @ rest, None)"
      by (rule package_shape)
    from convert_package [OF pk *(4,5), of "''./''"] url
    have "url = ''https://github.com/gruntwork-io/'' @ pkg @ ''/tree/master'' @ (''/'' @ rest)"
      by (simp add: Let_def HasPrefix_def del: append.simps Join.simps)
    with * have "InputPath p = ''packages/'' @ pkg @ (''/'' @ rest) \<and> pkg \<noteq> []
               \<and> (\<forall>x\<in>set pkg. in_cls word_space_dash x) \<and> HasPrefix (''/'' @ rest) ''/''
               \<and> url = ''https://github.com/gruntwork-io/'' @ pkg @ ''/tree/master'' @ (''/'' @ rest)"
      by (simp add: HasPrefix_def)
    then show ?thesis
      by blast
  qed
  with pop url show ?thesis
    by simp
qed

lemma sample_self_url:
  "convertPackageLinkToUrl ''packages/module-vpc/modules/vpc-app/README.md'' ''./''
     = (''https://github.com/gruntwork-io/module-vpc/tree/master/modules/vpc-app/README.md'', None)"
  by code_simp

theorem populate_sets_github_url_witness:
  "snd (file_ReadFile sample_ext (FullInputPath
          (sample_page ''packages/module-vpc/modules/vpc-app/README.md''
             ''packages/module-vpc/vpc-app/README.md''))) = None
   \<and> snd (PopulateAllProperties sample_ext
          (sample_page ''packages/module-vpc/modules/vpc-app/README.md''
             ''packages/module-vpc/vpc-app/README.md'')) = None
   \<and> GithubUrl (fst (PopulateAllProperties sample_ext
          (sample_page ''packages/module-vpc/modules/vpc-app/README.md''
             ''packages/module-vpc/vpc-app/README.md'')))
       = ''https://github.com/gruntwork-io/module-vpc/tree/master/modules/vpc-app/README.md''"
proof -
  let ?p = "sample_page ''packages/module-vpc/modules/vpc-app/README.md''
              ''packages/module-vpc/vpc-app/README.md''"
  have h: "snd (file_ReadFile sample_ext (FullInputPath ?p)) = None"
    by (simp add: sample_ext_def)
  have i: "InputPath ?p = ''packages/module-vpc/modules/vpc-app/README.md''"
    by (simp add: sample_page_def NewPage_def)
  from populate_sets_github_url [OF h] h show ?thesis
    by (simp add: i sample_self_url)
qed

section \<open>Writing a page\<close>

lemma markdown_re_anchored: "i \<noteq> 0 \<Longrightarrow> backtrack markdown_file_path_re i t c = []"
  by (simp add: markdown_file_path_re_def)

lemma markdown_re_sound:
  assumes "backtrack markdown_file_path_re 0 s c \<noteq> []"
  shows "suffix ''.md'' s"
proof -
  from assms obtain th where "th \<in> set (backtrack markdown_file_path_re 0 s c)"
    by (cases "backtrack markdown_file_path_re 0 s c") auto
  then have "\<exists>q p1 zs p2. (p1, CHR ''/'' # zs) \<in> set (star_run NotNewline 0 s)
      \<and> (p2, ''.md'') \<in> set (star_run NotNewline q zs)"
    by (auto simp: markdown_file_path_re_def prefix_def split: if_splits) blast
  then obtain q p1 zs p2 where
    st: "(p1, CHR ''/'' # zs) \<in> set (star_run NotNewline 0 s)"
    and st2: "(p2, ''.md'') \<in> set (star_run NotNewline q zs)"
    by blast
  from star_run_sound [OF st] obtain u where "s = u @ CHR ''/'' # zs"
    by blast
  moreover from star_run_sound [OF st2] obtain v where "zs = v @ ''.md''"
    by blast
  ultimately have "s = (u @ CHR ''/'' # v) @ ''.md''"
    by simp
  then show ?thesis
    unfolding suffix_def by blast
qed

lemma dot_md_end:
  "backtrack (Seq (Lit ''.md'') Eol) p t d = (if t = ''.md'' then [(p + 3, [], d)] else [])"
  by (auto simp: prefix_def)

lemma concat_map_single:
  "distinct xs \<Longrightarrow> n \<in> set xs \<Longrightarrow> concat (map (\<lambda>i. if i = n then g i else []) xs) = g n"
  by (induction xs) auto

lemma markdown_re_match:
  assumes f: "CHR ''/'' \<notin> set f" and nl: "CHR 0x0A \<notin> set (d @ f)"
  shows "\<exists>ths. backtrack markdown_file_path_re 0 (d @ ''/'' @ f @ ''.md'') c
           = (length d + length f + 4, [], c(1 \<mapsto> f)) # ths"
proof -
  define t where "t = f @ ''.md''"
  define s where "s = d @ CHR ''/'' # t"
  define K0 where "K0 = Seq (Lit ''.md'') Eol"
  define K1 where "K1 = Seq (Lit ''/'') (Seq (Grp 1 (Star NotNewline)) K0)"
  have re: "markdown_file_path_re = Seq Bol (Seq (Star NotNewline) K1)"
    by (simp add: markdown_file_path_re_def K0_def K1_def)
  have k0: "backtrack K0 p u e = (if u = ''.md'' then [(p + 3, [], e)] else [])" for p u e
    unfolding K0_def by (rule dot_md_end)
  have alls: "\<forall>x\<in>set s. in_cls NotNewline x"
    using nl by (auto simp: s_def t_def)
  have allt: "\<forall>x\<in>set t. in_cls NotNewline x"
    using nl by (auto simp: t_def)
  have lent: "length t = length f + 3" and taket: "take (length f) t = f"
    by (simp_all add: t_def)
  have star: "backtrack (Star NotNewline) p s e
      = map (\<lambda>j. (p + j, drop j s, e)) (rev [0..<Suc (length s)])" for p e
    using backtrack_Star [OF alls, of "[]" p e] by simp
  have start: "backtrack (Star NotNewline) p t e
      = map (\<lambda>j. (p + j, drop j t, e)) (rev [0..<Suc (length t)])" for p e
    using backtrack_Star [OF allt, of "[]" p e] by simp
  have dropt: "(drop i t = ''.md'') = (i = length f)" for i
  proof
    assume "drop i t = ''.md''"
    then have "length (drop i t) = 3"
      by simp
    then show "i = length f"
      by (simp add: lent)
  qed (simp add: t_def)
  have at_d: "backtrack K1 p (CHR ''/'' # t) e
      = [(p + length f + 4, [], e(1 \<mapsto> f))]" for p e
  proof -
    have "backtrack (Seq (Grp 1 (Star NotNewline)) K0) q t e
        = concat (map (\<lambda>i. if i = length f then [(q + i + 3, [], e(Suc 0 \<mapsto> take i t))] else [])
            (rev [0..<Suc (length t)]))" for q
      by (simp add: start k0 dropt o_def del: upt_Suc backtrack.simps(3))
    also have "\<dots> q = [(q + length f + 3, [], e(1 \<mapsto> f))]" for q
      by (subst concat_map_single) (simp_all add: lent taket del: upt_Suc)
    finally show ?thesis
      unfolding K1_def by simp
  qed
  have after_d: "backtrack K1 p (drop j s) e = []" if "length d < j" for j p e
  proof -
    from that obtain k where "j = length d + Suc k"
      using less_iff_Suc_add by auto
    then have "drop j s = drop k t"
      unfolding s_def by simp
    moreover have "CHR ''/'' \<notin> set t"
      using f by (simp add: t_def)
    then have "CHR ''/'' \<notin> set (drop k t)"
      using in_set_dropD by fast
    ultimately have "\<not> prefix ''/'' (drop j s)"
      by (auto simp: prefix_def)
    then show ?thesis
      unfolding K1_def by simp
  qed
  have len: "Suc (length s) = length d + Suc (Suc (length t))"
    by (simp add: s_def)
  have split: "rev [0..<Suc (length s)]
      = rev [Suc (length d)..<Suc (length s)] @ length d # rev [0..<length d]"
  proof -
    have "[0..<length d + Suc (Suc (length t))]
        = [0..<length d] @ [length d..<length d + Suc (Suc (length t))]"
      by (rule upt_add_eq_append) simp
    also have "[length d..<length d + Suc (Suc (length t))]
        = length d # [Suc (length d)..<length d + Suc (Suc (length t))]"
      by (rule upt_conv_Cons) simp
    finally show ?thesis
      unfolding len by simp
  qed
  have "backtrack (Seq (Star NotNewline) K1) 0 s c
      = concat (map (\<lambda>j. backtrack K1 j (drop j s) c) (rev [0..<Suc (length s)]))"
    by (simp add: star o_def del: upt_Suc backtrack.simps(3))
  also have "\<dots> = backtrack K1 (length d) (drop (length d) s) c
        @ concat (map (\<lambda>j. backtrack K1 j (drop j s) c) (rev [0..<length d]))"
    unfolding split
  proof (rule concat_map_first, rule ballI)
    fix j assume "j \<in> set (rev [Suc (length d)..<Suc (length s)])"
    then have "length d < j"
      by (simp del: upt_Suc)
    then show "backtrack K1 j (drop j s) c = []"
      by (rule after_d)
  qed
  also have "backtrack K1 (length d) (drop (length d) s) c
      = [(length d + length f + 4, [], c(1 \<mapsto> f))]"
    using at_d [of "length d" c] by (simp add: s_def)
  finally have "\<exists>ths. backtrack markdown_file_path_re 0 s c
      = (length d + length f + 4, [], c(1 \<mapsto> f)) # ths"
    unfolding re by simp
  then show ?thesis
    by (simp add: s_def t_def)
qed

lemma Index_Some:
  "Index s old = Some j \<Longrightarrow> s = take j s @ old @ drop (j + length old) s"
proof (induction s arbitrary: j)
  case Nil
  then show ?case by (simp split: if_splits)
next
  case (Cons c cs)
  show ?case
  proof (cases "prefix old (c # cs)")
    case True
    with Cons.prems have "j = 0" by simp
    with True show ?thesis
      by (auto simp: prefix_def)
  next
    case False
    with Cons.prems obtain j' where "Index cs old = Some j'" "j = Suc j'"
      by auto
    with Cons.IH [of j'] show ?thesis
      by simp
  qed
qed

lemma Index_le: "Index s old = Some j \<Longrightarrow> j + length old \<le> length s"
proof (induction s arbitrary: j)
  case Nil
  then show ?case by (simp split: if_splits)
next
  case (Cons c cs)
  show ?case
  proof (cases "prefix old (c # cs)")
    case True
    with Cons.prems have "j = 0" by simp
    with prefix_length_le [OF True] show ?thesis
      by simp
  next
    case False
    with Cons.prems obtain j' where "Index cs old = Some j'" "j = Suc j'"
      by auto
    with Cons.IH [of j'] show ?thesis
      by simp
  qed
qed

lemma prefix_sep:
  assumes "sep \<notin> set old"
  shows "prefix old (a @ sep # t) = prefix old a"
proof
  assume "prefix old (a @ sep # t)"
  then consider "prefix old a" | us where "old = a @ us" "prefix us (sep # t)"
    unfolding prefix_append by blast
  then show "prefix old a"
  proof cases
    case 1
    then show ?thesis .
  next
    case 2
    with assms have "us = []"
      by (cases us) auto
    with 2 show ?thesis
      by simp
  qed
qed (auto intro: prefix_prefix)

lemma Index_sep:
  assumes "sep \<notin> set old" "old \<noteq> []"
  shows "Index (d @ sep # t) old =
           (case Index d old of
              Some j \<Rightarrow> Some j
            | None \<Rightarrow> map_option (\<lambda>j. Suc (length d + j)) (Index t old))"
proof (induction d)
  case Nil
  from assms have "\<not> prefix old (sep # t)"
    by (cases old) auto
  with assms show ?case
    by (simp add: option.map_comp o_def)
next
  case (Cons x d)
  have "prefix old (x # d @ sep # t) = prefix old (x # d)"
    using prefix_sep [OF assms(1), of "x # d" t] by simp
  with Cons show ?case
    by (simp add: option.map_comp o_def split: option.splits)
qed

lemma replaceN_enough:
  assumes "old \<noteq> []"
  shows "length s \<le> k \<Longrightarrow> length s \<le> k' \<Longrightarrow> replaceN k s old new = replaceN k' s old new"
proof (induction k arbitrary: s k')
  case 0
  then have "s = []" by simp
  with assms show ?case
    by (cases k') simp_all
next
  case (Suc k)
  show ?case
  proof (cases "Index s old")
    case None
    then show ?thesis
      by (cases k') simp_all
  next
    case (Some j)
    from Index_le [OF Some] assms have lt: "length (drop (j + length old) s) < length s"
      by (cases old) auto
    with Suc.prems obtain k0 where k': "k' = Suc k0"
      by (cases k') auto
    from lt Suc.prems k' have "length (drop (j + length old) s) \<le> k"
      "length (drop (j + length old) s) \<le> k0"
      by simp_all
    from Suc.IH [OF this] Some k' show ?thesis
      by simp
  qed
qed

lemma Replace_all_unfold:
  assumes "old \<noteq> []" "old \<noteq> new"
  shows "Replace s old new (- 1) =
           (case Index s old of
              None \<Rightarrow> s
            | Some j \<Rightarrow> take j s @ new @ Replace (drop (j + length old) s) old new (- 1))"
proof (cases "Index s old")
  case None
  with assms show ?thesis
    by (simp add: Replace_def)
next
  case (Some j)
  from Index_le [OF Some] have "length (drop (j + length old) s) \<le> length s"
    by simp
  from replaceN_enough [OF assms(1) this, of "Suc (length (drop (j + length old) s))"]
  have "replaceN (length s) (drop (j + length old) s) old new
      = replaceN (Suc (length (drop (j + length old) s))) (drop (j + length old) s) old new"
    by simp
  with assms Some show ?thesis
    by (simp add: Replace_def)
qed

lemma Replace_all_sep:
  assumes "sep \<notin> set old" "old \<noteq> []"
  shows "Replace (d @ sep # t) old new (- 1)
           = Replace d old new (- 1) @ sep # Replace t old new (- 1)"
proof (cases "old = new")
  case True
  then show ?thesis
    by (simp add: Replace_def)
next
  case False
  note unf = Replace_all_unfold [OF assms(2) False]
  show ?thesis
  proof (induction d rule: length_induct)
    case (1 d)
    show ?case
    proof (cases "Index d old")
      case None
      then show ?thesis
        by (subst unf, subst (2) unf, subst (3) unf)
          (simp add: Index_sep [OF assms] split: option.splits)
    next
      case (Some j)
      from Index_le [OF Some] assms(2) have "length (drop (j + length old) d) < length d"
        by (cases old) auto
      with 1 have ih: "Replace (drop (j + length old) d @ sep # t) old new (- 1)
          = Replace (drop (j + length old) d) old new (- 1) @ sep # Replace t old new (- 1)"
        by blast
      from Index_le [OF Some] have "drop (j + length old) (d @ sep # t) = drop (j + length old) d @ sep # t"
        "take j (d @ sep # t) = take j d"
        by simp_all
      with Some ih show ?thesis
        by (subst unf, subst (2) unf) (simp add: Index_sep [OF assms])
    qed
  qed
qed

lemma markdown_FindAll:
  assumes "CHR ''/'' \<notin> set f" "CHR 0x0A \<notin> set (d @ f)"
  shows "FindAllStringSubmatch markdown_file_path_re (d @ ''/'' @ f @ ''.md'')
           = [[d @ ''/'' @ f @ ''.md'', f]]"
proof -
  from markdown_re_match [OF assms, of Map.empty] obtain ths where
    m: "backtrack markdown_file_path_re 0 (d @ ''/'' @ f @ ''.md'') Map.empty
          = (length d + length f + 4, [], [1 \<mapsto> f]) # ths"
    by blast
  have n: "ngroups markdown_file_path_re = 1"
    by (simp add: markdown_file_path_re_def)
  have "submatch markdown_file_path_re (d @ ''/'' @ f @ ''.md'') 0 (length d + length f + 4) [1 \<mapsto> f]
       = [d @ ''/'' @ f @ ''.md'', f]"
    by (simp add: submatch_def n)
  with FindAll_anchored_match [OF markdown_re_anchored m] show ?thesis
    by simp
qed

lemma Replace_self:
  assumes "old \<noteq> []"
  shows "Replace old old new (- 1) = new"
proof (cases "old = new")
  case True
  then show ?thesis by (simp add: Replace_def)
next
  case False
  from assms have "Index old old = Some 0"
    by (cases old) simp_all
  moreover have "Replace [] old new (- 1) = []"
    using assms by (simp add: Replace_def)
  ultimately show ?thesis
    by (subst Replace_all_unfold [OF assms False]) simp
qed

lemma replaceMd_ok:
  assumes "CHR ''/'' \<notin> set f" "CHR 0x0A \<notin> set (d @ f)"
  shows "replaceMdFileExtensionWithHtmlFileExtension (d @ ''/'' @ f @ ''.md'')
           = (Replace d (f @ ''.md'') (f @ ''.html'') (- 1) @ ''/'' @ f @ ''.html'', None)"
proof -
  have sep: "CHR ''/'' \<notin> set (f @ ''.md'')"
    using assms(1) by simp
  have "Replace (d @ CHR ''/'' # (f @ ''.md'')) (f @ ''.md'') (f @ ''.html'') (- 1)
      = Replace d (f @ ''.md'') (f @ ''.html'') (- 1) @ CHR ''/'' # (f @ ''.html'')"
    by (subst Replace_all_sep [OF sep]) (simp_all add: Replace_self)
  then show ?thesis
    by (simp add: replaceMdFileExtensionWithHtmlFileExtension_def markdown_FindAll [OF assms]
        index2_def MARKDOWN_FILE_PATH_REGEX_NUM_CAPTURE_GROUPS_def del: append.simps)
      simp
qed

lemma replaceMd_fail:
  assumes "\<not> suffix ''.md'' path"
  shows "replaceMdFileExtensionWithHtmlFileExtension path
           = ([], Some (WithStackTrace (WrongNumberOfCaptureGroupsReturnedFromPageRegEx path
                ''MARKDOWN_FILE_PATH_REGEX'' MARKDOWN_FILE_PATH_REGEX)))"
proof -
  from assms markdown_re_sound have "backtrack markdown_file_path_re 0 path Map.empty = []"
    by blast
  from FindAll_anchored_nomatch [OF markdown_re_anchored this] show ?thesis
    by (simp add: replaceMdFileExtensionWithHtmlFileExtension_def)
qed

text \<open>
  C6: \<open>replaceMdFileExtensionWithHtmlFileExtension\<close> turns \<open>foo/bar.md\<close> into
  \<open>foo/bar.html\<close>, and for every path that does not end in \<open>.md\<close> it returns the
  error value \<open>WrongNumberOfCaptureGroupsReturnedFromPageRegEx\<close>, which holds the
  path, the name of the pattern and the pattern, with its stack trace; it is not the panic
  value.
\<close>

theorem replace_md_extension:
  "replaceMdFileExtensionWithHtmlFileExtension ''foo/bar.md'' = (''foo/bar.html'', None)
   \<and> (\<forall>path. \<not> suffix ''.md'' path \<longrightarrow>
         replaceMdFileExtensionWithHtmlFileExtension path
           = ([], Some (WithStackTrace (WrongNumberOfCaptureGroupsReturnedFromPageRegEx path
                ''MARKDOWN_FILE_PATH_REGEX'' MARKDOWN_FILE_PATH_REGEX))))"
proof -
  have "Replace ''foo'' ''bar.md'' ''bar.html'' (- 1) = ''foo''"
    by (simp add: Replace_def)
  with replaceMd_ok [of "''bar''" "''foo''"]
  have "replaceMdFileExtensionWithHtmlFileExtension ''foo/bar.md'' = (''foo/bar.html'', None)"
    by simp
  with replaceMd_fail show ?thesis
    by blast
qed

theorem replace_md_extension_witness:
  "\<not> suffix ''.md'' ''foo/bar.txt''
   \<and> replaceMdFileExtensionWithHtmlFileExtension ''foo/bar.txt''
       = ([], Some (WithStackTrace (WrongNumberOfCaptureGroupsReturnedFromPageRegEx ''foo/bar.txt''
            ''MARKDOWN_FILE_PATH_REGEX'' MARKDOWN_FILE_PATH_REGEX)))"
proof -
  have h: "\<not> suffix ''.md'' ''foo/bar.txt''"
    by (simp add: suffix_to_prefix)
  with replace_md_extension show ?thesis
    by blast
qed

text \<open>
  C2: a source file whose name ends in any of the Markdown extensions \<open>markdown\<close>,
  \<open>mdown\<close>, \<open>mkdn\<close>, \<open>mkd\<close>, \<open>md\<close> is to be written with the extension replaced
  by \<open>.html\<close>.  \<open>MARKDOWN_FILE_PATH_REGEX\<close> ends in \<open>\.md$\<close>: for the page of the
  module document \<open>packages/module-vpc/modules/vpc-app/_docs/example.markdown\<close>, whose
  output path keeps the extension, nothing is written and the error of the pattern is
  returned.
\<close>

theorem markdown_extension_rejected:
  "WriteFullPageHtmlToOutputPath sample_ext
     (sample_page ''packages/module-vpc/modules/vpc-app/_docs/example.markdown''
        ''packages/module-vpc/vpc-app/example.markdown'') ''out''
   = (None, Some (WithStackTrace (WithStackTrace (WrongNumberOfCaptureGroupsReturnedFromPageRegEx
        ''out/packages/module-vpc/vpc-app/example.markdown''
        ''MARKDOWN_FILE_PATH_REGEX'' MARKDOWN_FILE_PATH_REGEX))))"
  by code_simp

section \<open>Rewriting the links of a body\<close>

lemma replaceLinkPath_id:
  assumes "\<not> Contains b (''('' @ l @ '')'')" "\<not> Contains b ('' '' @ l @ '' '')"
  shows "replaceLinkPath l url b = b"
  using assms by (simp add: replaceLinkPath_def Replace_def Contains_def Let_def)

lemma convertLoop_id:
  assumes "\<forall>l\<in>set ls. \<not> Contains b (''('' @ l @ '')'') \<and> \<not> Contains b ('' '' @ l @ '' '')"
  shows "convertLoop ip ls b = (b, None)"
  using assms
proof (induction ls)
  case Nil
  then show ?case by simp
next
  case (Cons l ls)
  obtain url where url: "convertPackageLinkToUrl ip l = (url, None)"
    using convert_no_error [of ip l] by (cases "convertPackageLinkToUrl ip l") auto
  from Cons.prems have "replaceLinkPath l url b = b"
    by (simp add: replaceLinkPath_id)
  with Cons url show ?case
    by simp
qed

lemma file_paths_re_qualified:
  assumes t: "t \<noteq> []" "\<forall>x\<in>set t. in_cls path_chars x"
    and scheme: "scheme = ''http:/'' \<or> scheme = ''https:/''"
  shows "\<exists>ths. backtrack file_paths_re 0 (scheme @ ''/'' @ t) c
           = (length scheme + 1 + length t, [], c(1 \<mapsto> ''/'' @ t)) # ths"
proof -
  from t obtain x xs where xs: "t = x # xs"
    by (cases t) auto
  define G where "G = Grp 1 (Seq (Lit ''/'') (Plus path_chars))"
  define B where "B = Grp 2 (Seq (Plus path_chars) (Seq (Lit ''/'') (Star name_chars)))"
  have re: "file_paths_re = Alt (Seq (Opt (Alt (Lit ''http:/'') (Lit ''https:/''))) G) B"
    by (simp add: file_paths_re_def G_def B_def)
  have all: "\<forall>x\<in>set xs. in_cls path_chars x" and x: "in_cls path_chars x"
    using t xs by simp_all
  have star: "backtrack (Star path_chars) p xs d
      = map (\<lambda>j. (p + j, drop j xs, d)) (rev [0..<Suc (length xs)])" for p d
    using backtrack_Star [OF all, of "[]" p d] by simp
  have g: "\<exists>ths. backtrack G p (CHR ''/'' # t) d
      = (p + 1 + length t, [], d(1 \<mapsto> ''/'' @ t)) # ths" for p d
    unfolding G_def Plus_def xs
    by (simp add: x star o_def del: backtrack.simps(3))
  from g [of "length scheme" c] obtain ths where
    "backtrack G (length scheme) (CHR ''/'' # t) c
       = (length scheme + 1 + length t, [], c(1 \<mapsto> ''/'' @ t)) # ths"
    by blast
  with scheme show ?thesis
    unfolding re by auto
qed

lemma file_paths_re_at_end: "backtrack file_paths_re p [] c = []"
  by (simp add: file_paths_re_def Plus_def)

lemma qualified_url_FindAll:
  assumes t: "t \<noteq> []" "\<forall>x\<in>set t. in_cls path_chars x"
    and scheme: "scheme = ''http:/'' \<or> scheme = ''https:/''"
  shows "FindAllStringSubmatch file_paths_re (scheme @ ''/'' @ t)
           = [[scheme @ ''/'' @ t, ''/'' @ t, []]]"
proof -
  define s where "s = scheme @ ''/'' @ t"
  have len: "length s = length scheme + 1 + length t"
    by (simp add: s_def)
  from file_paths_re_qualified [OF assms, of Map.empty] obtain ths where
    m: "backtrack file_paths_re 0 s Map.empty = (length s, [], [1 \<mapsto> ''/'' @ t]) # ths"
    unfolding s_def by auto
  have "[0..<Suc (length s)] = 0 # [Suc 0..<Suc (length s)]"
    by (simp add: upt_conv_Cons del: upt_Suc)
  with m have e0: "doExecute file_paths_re s 0 = Some (0, length s, [1 \<mapsto> ''/'' @ t])"
    by (simp add: doExecute_def del: upt_Suc)
  have "[length s..<Suc (length s)] = [length s]"
    by simp
  then have e1: "doExecute file_paths_re s (length s) = None"
    by (simp add: doExecute_def file_paths_re_at_end del: upt_Suc)
  have n: "ngroups file_paths_re = 2"
    by (simp add: file_paths_re_def Plus_def)
  have "[Suc 0..<Suc 2] = [1, 2]"
    by (simp add: upt_conv_Cons)
  then have sub: "submatch file_paths_re s 0 (length s) [1 \<mapsto> ''/'' @ t] = [s, ''/'' @ t, []]"
    by (simp add: submatch_def n del: upt_Suc)
  have pos: "length s \<noteq> 0"
    using len by simp
  have rest: "allMatches file_paths_re s (length s) (Some (length s)) = []"
    by (subst allMatches.simps) (simp add: e1)
  from e0 sub pos rest have "allMatches file_paths_re s 0 None = [[s, ''/'' @ t, []]]"
    by (subst allMatches.simps) simp
  then show ?thesis
    by (simp add: FindAllStringSubmatch_def s_def)
qed

lemma Contains_prefix: "prefix sub s \<Longrightarrow> Contains s sub"
  by (cases s) (auto simp: Contains_def)

lemma qualified_url_no_candidate:
  assumes t: "t \<noteq> []" "\<forall>x\<in>set t. in_cls path_chars x"
  shows "getAllLinkPaths (''http://'' @ t) = []" "getAllLinkPaths (''https://'' @ t) = []"
proof -
  have 1: "Contains (''http://'' @ t) ''http://''" "Contains (''https://'' @ t) ''https://''"
    by (rule Contains_prefix, simp)+
  from qualified_url_FindAll [OF t, of "''http:/''"] 1(1)
  show "getAllLinkPaths (''http://'' @ t) = []"
    by (simp add: getAllLinkPaths_def)
  from qualified_url_FindAll [OF t, of "''https:/''"] 1(2)
  show "getAllLinkPaths (''https://'' @ t) = []"
    by (simp add: getAllLinkPaths_def)
qed

lemma Contains_iff: "Contains s sub \<longleftrightarrow> (\<exists>pre post. s = pre @ sub @ post)"
proof
  assume "Contains s sub"
  then obtain j where "Index s sub = Some j"
    by (auto simp: Contains_def)
  from Index_Some [OF this] show "\<exists>pre post. s = pre @ sub @ post"
    by blast
next
  assume "\<exists>pre post. s = pre @ sub @ post"
  then obtain pre post where s: "s = pre @ sub @ post"
    by blast
  have "Index (pre @ sub @ post) sub \<noteq> None"
  proof (induction pre)
    case Nil
    have "prefix sub (sub @ post)"
      by simp
    then show ?case
      by (cases "sub @ post") auto
  next
    case (Cons c p)
    then show ?case by simp
  qed
  with s show "Contains s sub"
    by (simp add: Contains_def)
qed

lemma Index_short: "length s < length old \<Longrightarrow> Index s old = None"
  using Index_le [of s old] by (cases "Index s old") auto

lemma Index_first:
  assumes "old \<noteq> []"
  shows "Index s old = Some j \<Longrightarrow> Index (take j s @ butlast old) old = None"
proof (induction s arbitrary: j)
  case Nil
  with assms show ?case by (simp split: if_splits)
next
  case (Cons c cs)
  show ?case
  proof (cases "prefix old (c # cs)")
    case True
    with Cons.prems have "j = 0" by simp
    with assms show ?thesis
      by (simp add: Index_short)
  next
    case False
    with Cons.prems obtain j' where j': "Index cs old = Some j'" "j = Suc j'"
      by auto
    let ?t = "take j' cs @ butlast old"
    from Index_Some [OF j'(1)] have cs: "cs = take j' cs @ old @ drop (j' + length old) cs" .
    have "prefix (c # ?t) (c # take j' cs @ old @ drop (j' + length old) cs)"
      by (simp add: prefixeq_butlast prefix_prefix)
    with cs have "prefix (c # ?t) (c # cs)"
      by simp
    with False have "\<not> prefix old (c # ?t)"
      using prefix_order.trans by blast
    with Cons.IH [OF j'(1)] j' show ?thesis
      by simp
  qed
qed

lemma Index_at:
  assumes "old \<noteq> []"
  shows "Index (pre @ butlast old) old = None \<Longrightarrow> Index (pre @ old @ post) old = Some (length pre)"
proof (induction pre)
  case Nil
  from assms show ?case
    by (cases old) simp_all
next
  case (Cons c p)
  from Cons.prems have np: "\<not> prefix old (c # p @ butlast old)"
    and rest: "Index (p @ butlast old) old = None"
    by (auto split: if_splits)
  have "\<not> prefix old (c # p @ old @ post)"
  proof
    assume a: "prefix old (c # p @ old @ post)"
    have b: "prefix (c # p @ butlast old) (c # p @ old @ post)"
      by (simp add: prefixeq_butlast prefix_prefix)
    have "length old \<le> length (c # p @ butlast old)"
      by simp
    from prefix_length_prefix [OF a b this] np show False
      by simp
  qed
  with Cons.IH [OF rest] show ?case
    by simp
qed

lemma Replace_same: "Replace s old old n = s"
  by (simp add: Replace_def)

lemma replaces_instances_Replace:
  assumes "old \<noteq> []"
  shows "replaces_instances old new s (Replace s old new (- 1))"
proof (induction s rule: length_induct)
  case (1 s)
  show ?case
  proof (cases "Index s old")
    case None
    with assms have "Replace s old new (- 1) = s"
      by (simp add: Replace_def)
    moreover from None have "\<not> Contains s old"
      by (simp add: Contains_def)
    ultimately show ?thesis
      by (simp add: none_left)
  next
    case (Some j)
    let ?post = "drop (j + length old) s"
    from Index_le [OF Some] assms have "length ?post < length s"
      by (cases old) auto
    with 1 have ih: "replaces_instances old new ?post (Replace ?post old new (- 1))"
      by blast
    from Index_first [OF assms Some] have "\<not> Contains (take j s @ butlast old) old"
      by (simp add: Contains_def)
    from leftmost [OF this ih]
    have step: "replaces_instances old new (take j s @ old @ ?post)
        (take j s @ new @ Replace ?post old new (- 1))" .
    have "Replace s old new (- 1) = take j s @ new @ Replace ?post old new (- 1)"
    proof (cases "old = new")
      case True
      with Index_Some [OF Some] show ?thesis
        by (simp add: Replace_same)
    next
      case False
      from Replace_all_unfold [OF assms False, of s] Some show ?thesis
        by simp
    qed
    with step Index_Some [OF Some] show ?thesis
      by simp
  qed
qed

lemma replaces_instances_unique:
  assumes "old \<noteq> []"
  shows "replaces_instances old new s r \<Longrightarrow> r = Replace s old new (- 1)"
proof (induction rule: replaces_instances.induct)
  case (none_left s)
  with assms show ?case
    by (simp add: Replace_def Contains_def)
next
  case (leftmost pre post r)
  from leftmost.hyps(1) have "Index (pre @ butlast old) old = None"
    by (simp add: Contains_def)
  from Index_at [OF assms this, of post] have at: "Index (pre @ old @ post) old = Some (length pre)" .
  show ?case
  proof (cases "old = new")
    case True
    with leftmost.IH show ?thesis
      by (simp add: Replace_same)
  next
    case False
    from Replace_all_unfold [OF assms False, of "pre @ old @ post"] at leftmost.IH
    show ?thesis
      by simp
  qed
qed

lemma rewrites_candidates_convertLoop:
  "rewrites_candidates (\<lambda>l. fst (convertPackageLinkToUrl ip l)) ls b (fst (convertLoop ip ls b))"
proof (induction ls arbitrary: b)
  case Nil
  then show ?case by (simp add: no_candidate)
next
  case (Cons l ls)
  obtain url where url: "convertPackageLinkToUrl ip l = (url, None)"
    using convert_no_error [of ip l] by (cases "convertPackageLinkToUrl ip l") auto
  let ?b1 = "Replace b (''('' @ l @ '')'') (''('' @ url @ '')'') (- 1)"
  let ?b2 = "Replace ?b1 ('' '' @ l @ '' '') ('' '' @ url @ '' '') (- 1)"
  have 1: "replaces_instances (''('' @ l @ '')'') (''('' @ url @ '')'') b ?b1"
    by (rule replaces_instances_Replace) simp
  have 2: "replaces_instances ('' '' @ l @ '' '') ('' '' @ url @ '' '') ?b1 ?b2"
    by (rule replaces_instances_Replace) simp
  have b2: "replaceLinkPath l url b = ?b2"
    by (simp add: replaceLinkPath_def Let_def)
  from Cons.IH [of ?b2]
  have 3: "rewrites_candidates (\<lambda>l. fst (convertPackageLinkToUrl ip l)) ls ?b2
      (fst (convertLoop ip ls ?b2))" .
  from 1 2 url have "rewrites_candidates (\<lambda>l. fst (convertPackageLinkToUrl ip l)) (l # ls) b
      (fst (convertLoop ip ls ?b2))"
    using candidate [of l "\<lambda>l. fst (convertPackageLinkToUrl ip l)" b ?b1 ?b2 ls, OF _ _ 3]
    by simp
  with url b2 show ?case
    by simp
qed

lemma rewrites_candidates_unique:
  "rewrites_candidates (\<lambda>l. fst (convertPackageLinkToUrl ip l)) ls b r \<Longrightarrow>
     r = fst (convertLoop ip ls b)"
proof (induction rule: rewrites_candidates.induct)
  case (no_candidate b)
  then show ?case by simp
next
  case (candidate l b b1 b2 ls r)
  obtain url where url: "convertPackageLinkToUrl ip l = (url, None)"
    using convert_no_error [of ip l] by (cases "convertPackageLinkToUrl ip l") auto
  from replaces_instances_unique [OF _ candidate.hyps(1)] url
  have b1: "b1 = Replace b (''('' @ l @ '')'') (''('' @ url @ '')'') (- 1)"
    by simp
  from replaces_instances_unique [OF _ candidate.hyps(2)] url
  have b2: "b2 = Replace b1 ('' '' @ l @ '' '') ('' '' @ url @ '' '') (- 1)"
    by simp
  from b1 b2 have "replaceLinkPath l url b = b2"
    by (simp add: replaceLinkPath_def Let_def)
  with candidate.IH url show ?case
    by simp
qed

text \<open>
  C5, as stated: a candidate link token is replaced only where it stands between
  parentheses or between two single spaces, and every other occurrence of the token in
  the body is left as it is.  In the body \<open>/a, (x/a)\<close> the token \<open>/a\<close> stands in
  neither context, and its occurrence inside \<open>(x/a)\<close> is not left as it is: it goes
  with the instance \<open>(x/a)\<close> of the other candidate.
\<close>

theorem token_inside_other_candidate_changed:
  "getAllLinkPaths ''/a, (x/a)'' = [''/a'', ''x/a'']
   \<and> \<not> Contains ''/a, (x/a)'' ''(/a)''
   \<and> \<not> Contains ''/a, (x/a)'' '' /a ''
   \<and> convertMarkdownLinksToUrls ''packages/p/README.md'' ''/a, (x/a)'' = (''/a, ()'', None)"
  by code_simp

text \<open>
  C5, amended: \<open>convertMarkdownLinksToUrls\<close> handles the candidates in their order and
  replaces, for each, its leftmost non-overlapping instances between parentheses and then
  those between two single spaces by its URL between the same delimiters; the text
  between the instances is kept as it is, and the result is the only text reached in this
  way.  No error is returned, and a body in which no candidate stands in one of the two
  contexts is returned unchanged.
\<close>

theorem candidates_replaced_in_context:
  "rewrites_candidates (\<lambda>l. fst (convertPackageLinkToUrl inputPath l)) (getAllLinkPaths body)
     body (fst (convertMarkdownLinksToUrls inputPath body))
   \<and> (\<forall>r. rewrites_candidates (\<lambda>l. fst (convertPackageLinkToUrl inputPath l))
             (getAllLinkPaths body) body r
          \<longrightarrow> r = fst (convertMarkdownLinksToUrls inputPath body))
   \<and> snd (convertMarkdownLinksToUrls inputPath body) = None
   \<and> ((\<forall>l\<in>set (getAllLinkPaths body).
          \<not> Contains body (''('' @ l @ '')'') \<and> \<not> Contains body ('' '' @ l @ '' ''))
        \<longrightarrow> convertMarkdownLinksToUrls inputPath body = (body, None))"
proof (intro conjI allI impI)
  show "rewrites_candidates (\<lambda>l. fst (convertPackageLinkToUrl inputPath l)) (getAllLinkPaths body)
     body (fst (convertMarkdownLinksToUrls inputPath body))"
    unfolding convertMarkdownLinksToUrls_def by (rule rewrites_candidates_convertLoop)
  show "snd (convertMarkdownLinksToUrls inputPath body) = None"
    by (rule convertMarkdownLinksToUrls_no_error)
next
  fix r
  assume "rewrites_candidates (\<lambda>l. fst (convertPackageLinkToUrl inputPath l))
             (getAllLinkPaths body) body r"
  then show "r = fst (convertMarkdownLinksToUrls inputPath body)"
    unfolding convertMarkdownLinksToUrls_def by (rule rewrites_candidates_unique)
next
  assume "\<forall>l\<in>set (getAllLinkPaths body).
          \<not> Contains body (''('' @ l @ '')'') \<and> \<not> Contains body ('' '' @ l @ '' '')"
  then show "convertMarkdownLinksToUrls inputPath body = (body, None)"
    unfolding convertMarkdownLinksToUrls_def by (rule convertLoop_id)
qed

theorem candidates_replaced_in_context_witness:
  "getAllLinkPaths ''see (/a) and x,/a'' = [''/a'', ''/a'']
   \<and> rewrites_candidates (\<lambda>l. fst (convertPackageLinkToUrl ''packages/p/README.md'' l))
        [''/a'', ''/a''] ''see (/a) and x,/a''
        ''see (https://github.com/gruntwork-io/p/tree/master/a) and x,/a''
   \<and> convertMarkdownLinksToUrls ''packages/p/README.md'' ''see (/a) and x,/a''
       = (''see (https://github.com/gruntwork-io/p/tree/master/a) and x,/a'', None)
   \<and> getAllLinkPaths ''run /bin/setup, see a/b.'' = [''/bin/setup'', ''a/b.'']
   \<and> \<not> Contains ''run /bin/setup, see a/b.'' ''(/bin/setup)''
   \<and> \<not> Contains ''run /bin/setup, see a/b.'' '' /bin/setup ''
   \<and> \<not> Contains ''run /bin/setup, see a/b.'' ''(a/b.)''
   \<and> \<not> Contains ''run /bin/setup, see a/b.'' '' a/b. ''
   \<and> convertMarkdownLinksToUrls ''packages/p/m/README.md'' ''run /bin/setup, see a/b.''
       = (''run /bin/setup, see a/b.'', None)"
proof -
  have p: "getAllLinkPaths ''see (/a) and x,/a'' = [''/a'', ''/a'']"
    by code_simp
  have v: "convertMarkdownLinksToUrls ''packages/p/README.md'' ''see (/a) and x,/a''
       = (''see (https://github.com/gruntwork-io/p/tree/master/a) and x,/a'', None)"
    by code_simp
  from candidates_replaced_in_context [of "''packages/p/README.md''" "''see (/a) and x,/a''",
      THEN conjunct1]
  have r: "rewrites_candidates (\<lambda>l. fst (convertPackageLinkToUrl ''packages/p/README.md'' l))
        [''/a'', ''/a''] ''see (/a) and x,/a''
        ''see (https://github.com/gruntwork-io/p/tree/master/a) and x,/a''"
    by (simp only: p v fst_conv)
  have c: "getAllLinkPaths ''run /bin/setup, see a/b.'' = [''/bin/setup'', ''a/b.'']"
    by code_simp
  have n: "\<not> Contains ''run /bin/setup, see a/b.'' ''(/bin/setup)''"
    "\<not> Contains ''run /bin/setup, see a/b.'' '' /bin/setup ''"
    "\<not> Contains ''run /bin/setup, see a/b.'' ''(a/b.)''"
    "\<not> Contains ''run /bin/setup, see a/b.'' '' a/b. ''"
    by code_simp+
  from n have h: "\<forall>l\<in>set (getAllLinkPaths ''run /bin/setup, see a/b.'').
       \<not> Contains ''run /bin/setup, see a/b.'' (''('' @ l @ '')'')
     \<and> \<not> Contains ''run /bin/setup, see a/b.'' ('' '' @ l @ '' '')"
    unfolding c by simp
  from candidates_replaced_in_context [of "''packages/p/m/README.md''" "''run /bin/setup, see a/b.''"]
    h have u: "convertMarkdownLinksToUrls ''packages/p/m/README.md'' ''run /bin/setup, see a/b.''
       = (''run /bin/setup, see a/b.'', None)"
    by blast
  from p r v c n u show ?thesis
    by blast
qed

text \<open>
  C4: no candidate that \<open>getAllLinkPaths\<close> selects contains \<open>http://\<close> or
  \<open>https://\<close>; a body in which every token that the pattern finds contains one of the
  two is returned unchanged, and so is the result of rewriting it again; and a token made
  of \<open>http://\<close> or \<open>https://\<close> followed by path characters is found as one token and
  is not selected.
\<close>

theorem qualified_links_unchanged:
  "(\<forall>l\<in>set (getAllLinkPaths body). \<not> Contains l ''http://'' \<and> \<not> Contains l ''https://'')
   \<and> ((\<forall>m\<in>set (FindAllStringSubmatch file_paths_re body).
          Contains (m ! 0) ''http://'' \<or> Contains (m ! 0) ''https://'')
        \<longrightarrow> convertMarkdownLinksToUrls inputPath body = (body, None)
          \<and> convertMarkdownLinksToUrls inputPath (fst (convertMarkdownLinksToUrls inputPath body))
              = (body, None))
   \<and> (\<forall>t. t \<noteq> [] \<and> (\<forall>x\<in>set t. in_cls path_chars x)
        \<longrightarrow> getAllLinkPaths (''http://'' @ t) = [] \<and> getAllLinkPaths (''https://'' @ t) = [])"
proof -
  have 1: "\<forall>l\<in>set (getAllLinkPaths body). \<not> Contains l ''http://'' \<and> \<not> Contains l ''https://''"
    by (simp add: getAllLinkPaths_def Let_def)
  have 2: "convertMarkdownLinksToUrls inputPath body = (body, None)"
    if "\<forall>m\<in>set (FindAllStringSubmatch file_paths_re body).
          Contains (m ! 0) ''http://'' \<or> Contains (m ! 0) ''https://''"
  proof -
    from that have "getAllLinkPaths body = []"
      by (auto simp: getAllLinkPaths_def Let_def filter_empty_conv)
    then show ?thesis
      by (simp add: convertMarkdownLinksToUrls_def)
  qed
  from 1 2 qualified_url_no_candidate show ?thesis
    by simp
qed

theorem qualified_links_unchanged_witness:
  "FindAllStringSubmatch file_paths_re ''[docs](https://github.com/a/b)''
     = [[''https://github.com/a/b'', ''/github.com/a/b'', []]]
   \<and> Contains ''https://github.com/a/b'' ''https://''
   \<and> convertMarkdownLinksToUrls ''packages/p/m/README.md'' ''[docs](https://github.com/a/b)''
       = (''[docs](https://github.com/a/b)'', None)
   \<and> getAllLinkPaths (''http://'' @ ''b.c/d'') = []"
proof -
  have f: "FindAllStringSubmatch file_paths_re ''[docs](https://github.com/a/b)''
     = [[''https://github.com/a/b'', ''/github.com/a/b'', []]]"
    by code_simp
  have c: "Contains ''https://github.com/a/b'' ''https://''"
    by code_simp
  from c have h: "\<forall>m\<in>set (FindAllStringSubmatch file_paths_re ''[docs](https://github.com/a/b)'').
       Contains (m ! 0) ''http://'' \<or> Contains (m ! 0) ''https://''"
    unfolding f by simp
  have t: "''b.c/d'' \<noteq> [] \<and> (\<forall>x\<in>set ''b.c/d''. in_cls path_chars x)"
    by (simp add: path_chars_def)
  from qualified_links_unchanged [of "''[docs](https://github.com/a/b)''" "''packages/p/m/README.md''"]
    h t f c show ?thesis
    by blast
qed

end
